theory Spec2Isabelle
  imports Complex_Main "HOL-Library.Multiset"
begin


section \<open>The mutation score (class MutationScore)\<close>

text \<open>
  The six attributes of \<^verbatim>\<open>MutationScore\<close> are Python integers. The constructor
  sets all of them to zero.
\<close>

record mutation_score =
  killed_mutants :: int
  timeout_mutants :: int
  incompetent_mutants :: int
  survived_mutants :: int
  covered_nodes :: int
  all_nodes :: int

definition MutationScore :: mutation_score where
  "MutationScore =
     \<lparr>killed_mutants = 0, timeout_mutants = 0, incompetent_mutants = 0,
      survived_mutants = 0, covered_nodes = 0, all_nodes = 0\<rparr>"

text \<open>The property \<^verbatim>\<open>all_mutants\<close>: the sum of the four outcome counters.\<close>

definition all_mutants :: "mutation_score \<Rightarrow> int" where
  "all_mutants s =
     killed_mutants s + timeout_mutants s + incompetent_mutants s + survived_mutants s"

text \<open>
  \<^verbatim>\<open>count\<close>: the quotient is Python's true division of two integers and the product
  with 100 follows it; both are taken exactly here (the rounding of the float
  operations is not modelled). \<^verbatim>\<open>if bottom\<close> tests the integer for being non-zero, and
  the other branch returns the integer 0.
\<close>

definition count_score :: "mutation_score \<Rightarrow> real" where
  "count_score s =
     (let bottom = all_mutants s - incompetent_mutants s
      in if bottom \<noteq> 0
         then (real_of_int (killed_mutants s + timeout_mutants s) / real_of_int bottom) * 100
         else 0)"

definition inc_killed :: "mutation_score \<Rightarrow> mutation_score" where
  "inc_killed s = s\<lparr>killed_mutants := killed_mutants s + 1\<rparr>"

definition inc_timeout :: "mutation_score \<Rightarrow> mutation_score" where
  "inc_timeout s = s\<lparr>timeout_mutants := timeout_mutants s + 1\<rparr>"

definition inc_incompetent :: "mutation_score \<Rightarrow> mutation_score" where
  "inc_incompetent s = s\<lparr>incompetent_mutants := incompetent_mutants s + 1\<rparr>"

definition inc_survived :: "mutation_score \<Rightarrow> mutation_score" where
  "inc_survived s = s\<lparr>survived_mutants := survived_mutants s + 1\<rparr>"

definition update_coverage :: "int \<Rightarrow> int \<Rightarrow> mutation_score \<Rightarrow> mutation_score" where
  "update_coverage covered alln s =
     s\<lparr>covered_nodes := covered_nodes s + covered, all_nodes := all_nodes s + alln\<rparr>"

section \<open>The mutation controller (class MutationController)\<close>

subsection \<open>Results, exceptions and notifications\<close>

text \<open>
  What the controller reads of a \<^verbatim>\<open>unittest.TestResult\<close> of the baseline run, and of
  the result object the mutation test runner hands back. The runner gives \<^verbatim>\<open>None\<close>
  when the deadline passed; a result object is truthy.
\<close>

record baseline_result =
  wasSuccessful :: bool
  testsRun :: int

record mutation_test_result =
  is_incompetent :: bool
  is_survived :: bool
  killer :: string
  exception_traceback :: string
  exception :: string
  tests_run :: int

text \<open>The exceptions that the modelled code raises or lets through.\<close>

datatype py_error =
    TestsFailAtOriginal baseline_result
  | ModulesLoaderException string string
  | AssertionError string
  | IndexError
  | ValueError
  | KeyError

text \<open>
  The calls \<^verbatim>\<open>notify_*\<close> of \<^verbatim>\<open>views.ViewNotifier\<close>, in the order made, are the
  observable output of the controller: one constructor per call, with its arguments.
\<close>

datatype ('m, 'ast) notification =
    NotifyInitialize "string list" "string list"
  | NotifyEnd mutation_score real
  | NotifyOriginalTestsFail baseline_result
  | NotifyCantLoad string string
  | NotifyPassed "(string \<times> string \<times> real) list" int
  | NotifyStart
  | NotifyMutation int "'m list" string 'ast
  | NotifyTimeout real
  | NotifyIncompetent real string int
  | NotifySurvived real int
  | NotifyKilled real string string int

record ('m, 'ast) controller =
  score :: mutation_score
  views :: "('m, 'ast) notification list"

definition notify :: "('m, 'ast) notification \<Rightarrow> ('m, 'ast) controller \<Rightarrow> ('m, 'ast) controller" where
  "notify n c = c\<lparr>views := views c @ [n]\<rparr>"

subsection \<open>Classification of a test run\<close>

definition update_timeout_mutant :: "real \<Rightarrow> ('m, 'ast) controller \<Rightarrow> ('m, 'ast) controller" where
  "update_timeout_mutant duration c =
     (let c1 = notify (NotifyTimeout duration) c
      in c1\<lparr>score := inc_timeout (score c1)\<rparr>)"

definition update_incompetent_mutant ::
  "mutation_test_result \<Rightarrow> real \<Rightarrow> ('m, 'ast) controller \<Rightarrow> ('m, 'ast) controller" where
  "update_incompetent_mutant result duration c =
     (let c1 = notify (NotifyIncompetent duration (exception result) (tests_run result)) c
      in c1\<lparr>score := inc_incompetent (score c1)\<rparr>)"

definition update_survived_mutant ::
  "mutation_test_result \<Rightarrow> real \<Rightarrow> ('m, 'ast) controller \<Rightarrow> ('m, 'ast) controller" where
  "update_survived_mutant result duration c =
     (let c1 = notify (NotifySurvived duration (tests_run result)) c
      in c1\<lparr>score := inc_survived (score c1)\<rparr>)"

definition update_killed_mutant ::
  "mutation_test_result \<Rightarrow> real \<Rightarrow> ('m, 'ast) controller \<Rightarrow> ('m, 'ast) controller" where
  "update_killed_mutant result duration c =
     (let c1 = notify (NotifyKilled duration (killer result) (exception_traceback result)
                         (tests_run result)) c
      in c1\<lparr>score := inc_killed (score c1)\<rparr>)"

definition update_score_and_notify_views ::
  "mutation_test_result option \<Rightarrow> real \<Rightarrow> ('m, 'ast) controller \<Rightarrow> ('m, 'ast) controller" where
  "update_score_and_notify_views result mutant_duration c =
     (case result of
        None \<Rightarrow> update_timeout_mutant mutant_duration c
      | Some r \<Rightarrow>
          if is_incompetent r then update_incompetent_mutant r mutant_duration c
          else if is_survived r then update_survived_mutant r mutant_duration c
          else update_killed_mutant r mutant_duration c)"

subsection \<open>Configuration and collaborators\<close>

text \<open>
  The attributes the constructor stores. \<^verbatim>\<open>mutation_number\<close> is \<^verbatim>\<open>None\<close> or an integer.
  \<^verbatim>\<open>timeout_factor\<close> is a number (the default is 5).
\<close>

record controller_config =
  timeout_factor :: real
  mutate_covered :: bool
  mutation_number :: "int option"
  target_names :: "string list"
  test_names :: "string list"

text \<open>
  A module loader's \<^verbatim>\<open>load\<close> is a generator: it yields the loaded items one by one
  and raises \<^verbatim>\<open>ModulesLoaderException(name, exception)\<close> at the item it cannot load.
\<close>

datatype 'a load_item = Loaded 'a | LoadFailure string string

text \<open>
  The collaborators are code outside \<^verbatim>\<open>controller.py\<close> (module loaders, the parser,
  the coverage injector, the mutant generator, the module builder, unittest and the
  mutation test runner). Each is a parameter: a function of what the controller
  passes, giving what the controller reads back. Modules are known by their names.
  A generator of mutants is the list of what it yields, an exception it raises being
  the item \<open>Inl\<close> at which the iteration ends.
\<close>

record ('m, 'ast, 'mod, 'suite) collaborators =
  test_loader_load :: "(string \<times> string) load_item list"
  run_test :: "string \<Rightarrow> string \<Rightarrow> baseline_result \<times> real"
  target_loader_load :: "string list \<Rightarrow> (string \<times> string) load_item list"
  create_target_ast :: "string \<Rightarrow> 'ast"
  coverage_inject :: "'ast \<Rightarrow> string \<Rightarrow> 'mod"
  inject_coverage_result :: "'ast \<Rightarrow> string \<Rightarrow> int \<times> int"
  mutant_generator_mutate :: "'ast \<Rightarrow> string \<Rightarrow> (py_error + 'm list \<times> 'ast) list"
  create_module :: "'ast \<Rightarrow> string \<Rightarrow> string + 'mod"
  create_test_suite :: "'mod \<Rightarrow> py_error + 'suite"
  mark_not_covered_tests_as_skip :: "'m list \<Rightarrow> 'suite \<Rightarrow> 'suite"
  runner_get_result :: "'suite \<Rightarrow> real \<Rightarrow> mutation_test_result option"
  timer_duration :: "'suite \<Rightarrow> real"
  run_duration :: real

subsection \<open>The baseline run\<close>

text \<open>
  \<^verbatim>\<open>load_and_check_tests\<close>: the loop over the test loader, with the three accumulators
  \<^verbatim>\<open>test_modules\<close>, \<^verbatim>\<open>number_of_tests\<close> and \<^verbatim>\<open>total_duration\<close>.
\<close>

fun load_and_check_tests_loop ::
  "(string \<Rightarrow> string \<Rightarrow> baseline_result \<times> real) \<Rightarrow> (string \<times> string) load_item list \<Rightarrow>
   (string \<times> string \<times> real) list \<Rightarrow> int \<Rightarrow> real \<Rightarrow>
   py_error + ((string \<times> string \<times> real) list \<times> real \<times> int)" where
  "load_and_check_tests_loop rt [] test_modules number_of_tests total_duration =
     Inr (test_modules, total_duration, number_of_tests)"
| "load_and_check_tests_loop rt (LoadFailure name exc # rest) test_modules number_of_tests
       total_duration =
     Inl (ModulesLoaderException name exc)"
| "load_and_check_tests_loop rt (Loaded (test_module, target_test) # rest) test_modules
       number_of_tests total_duration =
     (let (result, duration) = rt test_module target_test
      in if wasSuccessful result
         then load_and_check_tests_loop rt rest
                (test_modules @ [(test_module, target_test, duration)])
                (number_of_tests + testsRun result) (total_duration + duration)
         else Inl (TestsFailAtOriginal result))"

definition load_and_check_tests ::
  "('m, 'ast, 'mod, 'suite) collaborators \<Rightarrow>
   py_error + ((string \<times> string \<times> real) list \<times> real \<times> int)" where
  "load_and_check_tests env =
     load_and_check_tests_loop (run_test env) (test_loader_load env) [] 0 0"

subsection \<open>Running the tests against one mutant\<close>

text \<open>\<^verbatim>\<open>run_mutation_test_runner\<close>: the deadline, and the result the runner gives for it.\<close>

definition live_time :: "real \<Rightarrow> real \<Rightarrow> real" where
  "live_time factor total_duration =
     factor * (if total_duration > 1 then total_duration else 1)"

definition run_mutation_test_runner ::
  "controller_config \<Rightarrow> ('m, 'ast, 'mod, 'suite) collaborators \<Rightarrow> 'suite \<Rightarrow> real \<Rightarrow>
   mutation_test_result option" where
  "run_mutation_test_runner cfg env suite total_duration =
     runner_get_result env suite (live_time (timeout_factor cfg) total_duration)"

text \<open>
  \<^verbatim>\<open>run_tests_with_mutant\<close>. Building the suite loads the test modules again, so it
  can raise; \<^verbatim>\<open>coverage_result\<close> is present exactly when coverage was injected.
\<close>

definition run_tests_with_mutant ::
  "controller_config \<Rightarrow> ('m, 'ast, 'mod, 'suite) collaborators \<Rightarrow> real \<Rightarrow> 'mod \<Rightarrow> 'm list \<Rightarrow>
   bool \<Rightarrow> ('m, 'ast) controller \<Rightarrow> py_error option \<times> ('m, 'ast) controller" where
  "run_tests_with_mutant cfg env total_duration mutant_module mutations coverage_result c =
     (case create_test_suite env mutant_module of
        Inl e \<Rightarrow> (Some e, c)
      | Inr suite0 \<Rightarrow>
          let suite = (if coverage_result
                       then mark_not_covered_tests_as_skip env mutations suite0 else suite0);
              result = run_mutation_test_runner cfg env suite total_duration
          in (None, update_score_and_notify_views result (timer_duration env suite) c))"

text \<open>
  \<^verbatim>\<open>create_mutant_module\<close>: any exception of the module builder is caught, notified
  as an incompetent mutant with duration 0 and no test run, and \<^verbatim>\<open>None\<close> is returned.
\<close>

definition create_mutant_module ::
  "('m, 'ast, 'mod, 'suite) collaborators \<Rightarrow> string \<Rightarrow> 'ast \<Rightarrow> ('m, 'ast) controller \<Rightarrow>
   'mod option \<times> ('m, 'ast) controller" where
  "create_mutant_module env target_module mutant_ast c =
     (case create_module env mutant_ast target_module of
        Inl exc \<Rightarrow> (None, notify (NotifyIncompetent 0 exc 0) c)
      | Inr m \<Rightarrow> (Some m, c))"

subsection \<open>The loop over the mutants of one target\<close>

text \<open>
  The condition of the filter, \<^verbatim>\<open>self.mutation_number and self.mutation_number != n\<close>:
  \<^verbatim>\<open>None\<close> and the integer 0 are false in Python.
\<close>

definition filtered_out :: "int option \<Rightarrow> int \<Rightarrow> bool" where
  "filtered_out configured n =
     (case configured of None \<Rightarrow> False | Some k \<Rightarrow> k \<noteq> 0 \<and> k \<noteq> n)"

text \<open>
  The \<^verbatim>\<open>for\<close> loop of \<^verbatim>\<open>mutate_module\<close> over what the mutant generator yields. The
  result is the exception that ended the loop, if any, and the controller as it is then.
\<close>

fun mutate_module_loop ::
  "controller_config \<Rightarrow> ('m, 'ast, 'mod, 'suite) collaborators \<Rightarrow> string \<Rightarrow> real \<Rightarrow> bool \<Rightarrow>
   (py_error + 'm list \<times> 'ast) list \<Rightarrow> ('m, 'ast) controller \<Rightarrow>
   py_error option \<times> ('m, 'ast) controller" where
  "mutate_module_loop cfg env target_module total_duration coverage_result [] c = (None, c)"
| "mutate_module_loop cfg env target_module total_duration coverage_result (Inl e # rest) c =
     (Some e, c)"
| "mutate_module_loop cfg env target_module total_duration coverage_result
       (Inr (mutations, mutant_ast) # rest) c =
     (let number = all_mutants (score c) + 1
      in if filtered_out (mutation_number cfg) number
         then mutate_module_loop cfg env target_module total_duration coverage_result rest
                (c\<lparr>score := inc_incompetent (score c)\<rparr>)
         else
           let c1 = notify (NotifyMutation number mutations target_module mutant_ast) c;
               (mutant_module, c2) = create_mutant_module env target_module mutant_ast c1
           in case mutant_module of
                Some m \<Rightarrow>
                  (case run_tests_with_mutant cfg env total_duration m mutations
                          coverage_result c2 of
                     (Some e, c3) \<Rightarrow> (Some e, c3)
                   | (None, c3) \<Rightarrow>
                       mutate_module_loop cfg env target_module total_duration
                         coverage_result rest c3)
              | None \<Rightarrow>
                  mutate_module_loop cfg env target_module total_duration coverage_result rest
                    (c2\<lparr>score := inc_incompetent (score c2)\<rparr>))"

text \<open>
  \<^verbatim>\<open>inject_coverage\<close>. Without \<^verbatim>\<open>mutate_covered\<close> it returns \<^verbatim>\<open>None, None\<close>. Otherwise
  the injector instruments the tree (\<open>coverage_inject\<close> is the module it gives) and
  \<^verbatim>\<open>create_test_suite\<close> loads the test modules again for that module, which can raise;
  the suite is then run. The injector and the coverage result are objects, hence true
  in a condition; of the injector the controller reads \<^verbatim>\<open>get_result()\<close> after the run,
  which is \<open>inject_coverage_result\<close>.
\<close>

definition inject_coverage ::
  "controller_config \<Rightarrow> ('m, 'ast, 'mod, 'suite) collaborators \<Rightarrow> 'ast \<Rightarrow> string \<Rightarrow>
   py_error + (int \<times> int) option" where
  "inject_coverage cfg env target_ast target_module =
     (if \<not> mutate_covered cfg then Inr None
      else (case create_test_suite env (coverage_inject env target_ast target_module) of
              Inl e \<Rightarrow> Inl e
            | Inr suite \<Rightarrow> Inr (Some (inject_coverage_result env target_ast target_module))))"

text \<open>
  \<^verbatim>\<open>mutate_module\<close>: the tree, the coverage pass, the update of the coverage counts
  when there is an injector, and the loop.
\<close>

definition mutate_module ::
  "controller_config \<Rightarrow> ('m, 'ast, 'mod, 'suite) collaborators \<Rightarrow> string \<Rightarrow> real \<Rightarrow>
   ('m, 'ast) controller \<Rightarrow> py_error option \<times> ('m, 'ast) controller" where
  "mutate_module cfg env target_module total_duration c =
     (let target_ast = create_target_ast env target_module
      in case inject_coverage cfg env target_ast target_module of
           Inl e \<Rightarrow> (Some e, c)
         | Inr coverage \<Rightarrow>
             let c1 = (case coverage of
                         Some (covered, alln) \<Rightarrow>
                           c\<lparr>score := update_coverage covered alln (score c)\<rparr>
                       | None \<Rightarrow> c)
             in mutate_module_loop cfg env target_module total_duration (coverage \<noteq> None)
                  (mutant_generator_mutate env target_ast target_module) c1)"

subsection \<open>The run\<close>

text \<open>The loop of \<^verbatim>\<open>run_mutation_process\<close> over the target loader.\<close>

fun targets_loop ::
  "controller_config \<Rightarrow> ('m, 'ast, 'mod, 'suite) collaborators \<Rightarrow> real \<Rightarrow>
   (string \<times> string) load_item list \<Rightarrow> ('m, 'ast) controller \<Rightarrow>
   py_error option \<times> ('m, 'ast) controller" where
  "targets_loop cfg env total_duration [] c = (None, c)"
| "targets_loop cfg env total_duration (LoadFailure name exc # rest) c =
     (Some (ModulesLoaderException name exc), c)"
| "targets_loop cfg env total_duration (Loaded (target_module, to_mutate) # rest) c =
     (case mutate_module cfg env target_module total_duration c of
        (Some e, c1) \<Rightarrow> (Some e, c1)
      | (None, c1) \<Rightarrow> targets_loop cfg env total_duration rest c1)"

text \<open>
  \<^verbatim>\<open>run_mutation_process\<close>. The score object exists only once the baseline run has
  passed, so the state is the score, if created, and the notifications so far.
  (\<^verbatim>\<open>KeyboardInterrupt\<close>, which this method swallows, comes from outside and is not
  modelled.)
\<close>

definition run_mutation_process ::
  "controller_config \<Rightarrow> ('m, 'ast, 'mod, 'suite) collaborators \<Rightarrow> ('m, 'ast) notification list \<Rightarrow>
   (py_error \<times> mutation_score option \<times> ('m, 'ast) notification list) +
   (mutation_score \<times> ('m, 'ast) notification list)" where
  "run_mutation_process cfg env notified =
     (case load_and_check_tests env of
        Inl e \<Rightarrow> Inl (e, None, notified)
      | Inr (test_modules, total_duration, number_of_tests) \<Rightarrow>
          let c = \<lparr>score = MutationScore,
                   views = notified @ [NotifyPassed test_modules number_of_tests, NotifyStart]\<rparr>
          in case targets_loop cfg env total_duration
                    (target_loader_load env (map fst test_modules)) c of
               (Some e, c1) \<Rightarrow> Inl (e, Some (score c1), views c1)
             | (None, c1) \<Rightarrow> Inr (score c1, views c1))"

text \<open>
  How \<^verbatim>\<open>run\<close> ends: it returns, it calls \<^verbatim>\<open>sys.exit\<close> with a status, or an exception
  that it does not catch leaves it.
\<close>

datatype run_outcome = Returned | SysExit int | Raised py_error

definition run ::
  "controller_config \<Rightarrow> ('m, 'ast, 'mod, 'suite) collaborators \<Rightarrow>
   run_outcome \<times> mutation_score option \<times> ('m, 'ast) notification list" where
  "run cfg env =
     (case run_mutation_process cfg env
             [NotifyInitialize (target_names cfg) (test_names cfg)] of
        Inr (sc, notified) \<Rightarrow> (Returned, Some sc, notified @ [NotifyEnd sc (run_duration env)])
      | Inl (TestsFailAtOriginal result, sc, notified) \<Rightarrow>
          (SysExit (- 1), sc, notified @ [NotifyOriginalTestsFail result])
      | Inl (ModulesLoaderException name exc, sc, notified) \<Rightarrow>
          (SysExit (- 2), sc, notified @ [NotifyCantLoad name exc])
      | Inl (e, sc, notified) \<Rightarrow> (Raised e, sc, notified))"

section \<open>The higher-order mutator (class HighOrderMutator)\<close>

text \<open>
  A mutation operator is code outside \<^verbatim>\<open>controller.py\<close>. Its method \<^verbatim>\<open>mutate\<close> returns
  a generator of pairs (mutation, mutated tree); the parameter \<open>operator_mutate\<close> gives
  the list of what that generator yields, for an operator, a tree and the value of
  \<^verbatim>\<open>only_mutation\<close>. \<^verbatim>\<open>generator.__next__()\<close> takes the head of the list and raises
  \<^verbatim>\<open>StopIteration\<close> on the empty list. \<open>operator_of\<close> reads the attribute \<^verbatim>\<open>operator\<close> of
  a mutation.
\<close>

text \<open>
  The inner \<^verbatim>\<open>for\<close> loop of \<^verbatim>\<open>HighOrderMutator.mutate\<close>, with its three accumulators
  \<^verbatim>\<open>applied_mutations\<close>, \<^verbatim>\<open>mutant\<close> and \<^verbatim>\<open>generators\<close>.
\<close>

fun apply_mutations_loop ::
  "('m \<Rightarrow> 'op) \<Rightarrow> ('op \<Rightarrow> 'ast \<Rightarrow> 'm option \<Rightarrow> ('m \<times> 'ast) list) \<Rightarrow> 'm list \<Rightarrow>
   'm list \<Rightarrow> 'ast \<Rightarrow> ('m \<times> 'ast) list list \<Rightarrow>
   py_error + ('m list \<times> 'ast \<times> ('m \<times> 'ast) list list)" where
  "apply_mutations_loop operator_of operator_mutate [] applied_mutations mutant generators =
     Inr (applied_mutations, mutant, generators)"
| "apply_mutations_loop operator_of operator_mutate (mutation # rest) applied_mutations mutant
       generators =
     (case operator_mutate (operator_of mutation) mutant (Some mutation) of
        [] \<Rightarrow> Inl (AssertionError ''no mutations!'')
      | (new_mutation, mutant') # generator \<Rightarrow>
          apply_mutations_loop operator_of operator_mutate rest
            (applied_mutations @ [new_mutation]) mutant' (generators @ [generator]))"

text \<open>\<^verbatim>\<open>finish_generators\<close>: every generator, last one first, must be exhausted.\<close>

fun finish_generators_loop :: "('m \<times> 'ast) list list \<Rightarrow> py_error + unit" where
  "finish_generators_loop [] = Inr ()"
| "finish_generators_loop (generator # rest) =
     (case generator of
        [] \<Rightarrow> finish_generators_loop rest
      | _ # _ \<Rightarrow> Inl (AssertionError ''too many mutations!''))"

definition finish_generators :: "('m \<times> 'ast) list list \<Rightarrow> py_error + unit" where
  "finish_generators generators = finish_generators_loop (rev generators)"

text \<open>
  The outer loop of \<^verbatim>\<open>HighOrderMutator.mutate\<close> over the groups of the strategy. What
  the method yields is listed; an assertion that fails ends the list with \<open>Inl\<close>.
\<close>

fun hom_mutate_loop ::
  "('m \<Rightarrow> 'op) \<Rightarrow> ('op \<Rightarrow> 'ast \<Rightarrow> 'm option \<Rightarrow> ('m \<times> 'ast) list) \<Rightarrow> 'ast \<Rightarrow> 'm list list \<Rightarrow>
   (py_error + 'm list \<times> 'ast) list" where
  "hom_mutate_loop operator_of operator_mutate target_ast [] = []"
| "hom_mutate_loop operator_of operator_mutate target_ast (mutations_to_apply # rest) =
     (case apply_mutations_loop operator_of operator_mutate mutations_to_apply [] target_ast [] of
        Inl e \<Rightarrow> [Inl e]
      | Inr (applied_mutations, mutant, generators) \<Rightarrow>
          Inr (applied_mutations, mutant) #
          (case finish_generators generators of
             Inl e \<Rightarrow> [Inl e]
           | Inr _ \<Rightarrow> hom_mutate_loop operator_of operator_mutate target_ast rest))"

text \<open>
  \<^verbatim>\<open>generate_all_mutations\<close> runs every operator, in the order of \<^verbatim>\<open>utils.sort_operators\<close>
  (the parameter \<open>operators\<close> is that sorted list), on the target tree.
\<close>

definition generate_all_mutations ::
  "'op list \<Rightarrow> ('op \<Rightarrow> 'ast \<Rightarrow> 'm option \<Rightarrow> ('m \<times> 'ast) list) \<Rightarrow> 'ast \<Rightarrow> 'm list" where
  "generate_all_mutations operators operator_mutate target_ast =
     concat (map (\<lambda>op. map fst (operator_mutate op target_ast None)) operators)"

text \<open>
  \<^verbatim>\<open>HighOrderMutator.mutate\<close>; \<open>generate\<close> is the list of groups that the strategy's
  generator yields for a list of mutations.
\<close>

definition HighOrderMutator_mutate ::
  "'op list \<Rightarrow> ('m \<Rightarrow> 'op) \<Rightarrow> ('op \<Rightarrow> 'ast \<Rightarrow> 'm option \<Rightarrow> ('m \<times> 'ast) list) \<Rightarrow>
   ('m list \<Rightarrow> 'm list list) \<Rightarrow> 'ast \<Rightarrow> (py_error + 'm list \<times> 'ast) list" where
  "HighOrderMutator_mutate operators operator_of operator_mutate generate target_ast =
     hom_mutate_loop operator_of operator_mutate target_ast
       (generate (generate_all_mutations operators operator_mutate target_ast))"


section \<open>The combination strategies (class HOMStrategy and its subclasses)\<close>

subsection \<open>Objects and lists\<close>

text \<open>
  A mutation and a node of the syntax tree are objects of classes defined outside
  \<^verbatim>\<open>controller.py\<close>; neither class overrides equality, so \<^verbatim>\<open>==\<close>, \<^verbatim>\<open>in\<close> and
  \<^verbatim>\<open>list.remove\<close> compare identities. An object is therefore a reference (a value of
  the type \<open>'m\<close> or \<open>'n\<close>), and the attributes that the strategies read are functions of
  the reference. The attribute \<^verbatim>\<open>children\<close> of a node is set by
  \<^verbatim>\<open>utils.ParentNodeTransformer\<close>, which is not part of the sources: it is a parameter.
\<close>

record ('m, 'n, 'o) attributes =
  node :: "'m \<Rightarrow> 'n"
  operator :: "'m \<Rightarrow> 'o"
  children :: "'n \<Rightarrow> 'n list"

text \<open>
  The list objects of one call of \<^verbatim>\<open>generate\<close>, and the store that gives each its
  content:
  \<^item> \<open>Caller\<close> is the list that the caller passes as \<^verbatim>\<open>mutations\<close>;
  \<^item> \<open>Copy\<close> is the list made by the \<^verbatim>\<open>mutations[:]\<close> in the first lines of the method.
    First-to-Last, Each-Choice and Random bind the name \<^verbatim>\<open>mutations\<close> to it from then
    on; Between-Operators binds \<^verbatim>\<open>not_used\<close> to it and keeps \<^verbatim>\<open>mutations\<close> for the
    caller's list;
  \<^item> \<open>Available\<close> is the list bound to \<^verbatim>\<open>available_mutations\<close> and \<open>ToApply\<close> the one
    bound to \<^verbatim>\<open>mutations_to_apply\<close>, both made anew in each round of the outer loop.
\<close>

datatype list_ref = Caller | Copy | Available | ToApply

type_synonym 'm store = "list_ref \<Rightarrow> 'm list"

text \<open>
  The list methods. \<^verbatim>\<open>pop\<close> counts a negative index from the end and raises
  \<^verbatim>\<open>IndexError\<close> outside the list; \<^verbatim>\<open>remove\<close> deletes the first occurrence and raises
  \<^verbatim>\<open>ValueError\<close> when there is none.
\<close>

definition list_pop :: "list_ref \<Rightarrow> int \<Rightarrow> 'm store \<Rightarrow> py_error + ('m \<times> 'm store)" where
  "list_pop r i s =
     (let xs = s r;
          j = (if i < 0 then i + int (length xs) else i)
      in if 0 \<le> j \<and> j < int (length xs)
         then Inr (xs ! nat j, s(r := take (nat j) xs @ drop (Suc (nat j)) xs))
         else Inl IndexError)"

definition list_remove :: "list_ref \<Rightarrow> 'm \<Rightarrow> 'm store \<Rightarrow> py_error + 'm store" where
  "list_remove r x s =
     (if x \<in> set (s r) then Inr (s(r := remove1 x (s r))) else Inl ValueError)"

definition list_append :: "list_ref \<Rightarrow> 'm \<Rightarrow> 'm store \<Rightarrow> 'm store" where
  "list_append r x s = s(r := s r @ [x])"

text \<open>\<^verbatim>\<open>target = source[:]\<close> binds a new list with the same items.\<close>

definition list_copy :: "list_ref \<Rightarrow> list_ref \<Rightarrow> 'm store \<Rightarrow> 'm store" where
  "list_copy target source s = s(target := s source)"

text \<open>\<^verbatim>\<open>target = []\<close> binds a new empty list.\<close>

definition list_new :: "list_ref \<Rightarrow> 'm store \<Rightarrow> 'm store" where
  "list_new target s = s(target := [])"

subsection \<open>Removing the mutations in conflict\<close>

text \<open>The condition of \<^verbatim>\<open>remove_bad_mutations\<close> (lines 355 to 358).\<close>

definition bad_pair :: "('m, 'n, 'o) attributes \<Rightarrow> bool \<Rightarrow> 'm \<Rightarrow> 'm \<Rightarrow> bool" where
  "bad_pair ob allow_same_operators mutation_to_apply available_mutation \<longleftrightarrow>
     node ob mutation_to_apply = node ob available_mutation \<or>
     node ob mutation_to_apply \<in> set (children ob (node ob available_mutation)) \<or>
     node ob available_mutation \<in> set (children ob (node ob mutation_to_apply)) \<or>
     (\<not> allow_same_operators \<and> operator ob mutation_to_apply = operator ob available_mutation)"

text \<open>
  The inner loop runs over the copy \<^verbatim>\<open>available_mutations[:]\<close>, whose items are the
  fourth argument, and removes from the list itself. The outer loop runs over the
  items of \<^verbatim>\<open>mutations_to_apply\<close>, a list that the method does not change when it is
  not the list \<^verbatim>\<open>available_mutations\<close> (no strategy passes the same list twice).
\<close>

fun remove_bad_inner ::
  "('m, 'n, 'o) attributes \<Rightarrow> bool \<Rightarrow> 'm \<Rightarrow> list_ref \<Rightarrow> 'm list \<Rightarrow> 'm store \<Rightarrow>
   py_error + 'm store" where
  "remove_bad_inner ob allow mutation_to_apply av [] s = Inr s"
| "remove_bad_inner ob allow mutation_to_apply av (available_mutation # rest) s =
     (if bad_pair ob allow mutation_to_apply available_mutation
      then (case list_remove av available_mutation s of
              Inl e \<Rightarrow> Inl e
            | Inr s' \<Rightarrow> remove_bad_inner ob allow mutation_to_apply av rest s')
      else remove_bad_inner ob allow mutation_to_apply av rest s)"

fun remove_bad_outer ::
  "('m, 'n, 'o) attributes \<Rightarrow> bool \<Rightarrow> 'm list \<Rightarrow> list_ref \<Rightarrow> 'm store \<Rightarrow> py_error + 'm store" where
  "remove_bad_outer ob allow [] av s = Inr s"
| "remove_bad_outer ob allow (mutation_to_apply # rest) av s =
     (case remove_bad_inner ob allow mutation_to_apply av (s av) s of
        Inl e \<Rightarrow> Inl e
      | Inr s' \<Rightarrow> remove_bad_outer ob allow rest av s')"

definition remove_bad_mutations ::
  "('m, 'n, 'o) attributes \<Rightarrow> list_ref \<Rightarrow> list_ref \<Rightarrow> bool \<Rightarrow> 'm store \<Rightarrow> py_error + 'm store" where
  "remove_bad_mutations ob mutations_to_apply available_mutations allow_same_operators s =
     remove_bad_outer ob allow_same_operators (s mutations_to_apply) available_mutations s"

subsection \<open>Each-Choice\<close>

text \<open>
  The inner \<^verbatim>\<open>while\<close> loop of \<^verbatim>\<open>EachChoiceHOMStrategy.generate\<close>. The \<^verbatim>\<open>try\<close> block
  holds the \<^verbatim>\<open>pop\<close>, the \<^verbatim>\<open>append\<close> and the \<^verbatim>\<open>remove\<close>; an \<^verbatim>\<open>IndexError\<close> leaves the
  loop, any other exception leaves the generator.
\<close>

function each_choice_inner ::
  "('m, 'n, 'o) attributes \<Rightarrow> int \<Rightarrow> 'm store \<Rightarrow> py_error + 'm store" where
  "each_choice_inner ob order s =
     (if int (length (s ToApply)) < order \<and> s Available \<noteq> []
      then (case list_pop Available 0 s of
              Inl e \<Rightarrow> (if e = IndexError then Inr s else Inl e)
            | Inr (mutation, s1) \<Rightarrow>
                (case list_remove Copy mutation (list_append ToApply mutation s1) of
                   Inl e \<Rightarrow>
                     (if e = IndexError then Inr (list_append ToApply mutation s1) else Inl e)
                 | Inr s2 \<Rightarrow>
                     (case remove_bad_mutations ob ToApply Available True s2 of
                        Inl e \<Rightarrow> Inl e
                      | Inr s3 \<Rightarrow> each_choice_inner ob order s3)))
      else Inr s)"
  by pat_completeness auto
termination
proof (relation "measure (\<lambda>(ob, order, s). length (s Available))")
  show "wf (measure (\<lambda>(ob :: ('m, 'n, 'o) attributes, order :: int, s :: 'm store).
              length (s Available)))"
    by simp
next
  fix ob :: "('m, 'n, 'o) attributes" and order :: int and s :: "'m store"
    and x2 mutation and s1 s2 s3 :: "'m store"
  assume c: "int (length (s ToApply)) < order \<and> s Available \<noteq> []"
    and pop: "list_pop Available 0 s = Inr x2" "(mutation, s1) = x2"
    and rem: "list_remove Copy mutation (list_append ToApply mutation s1) = Inr s2"
    and bad: "remove_bad_mutations ob ToApply Available True s2 = Inr s3"
  have inner: "length (t' Available) \<le> length (t Available)"
    if "remove_bad_inner ob True m Available rest t = Inr t'" for m rest and t t' :: "'m store"
    using that
  proof (induction rest arbitrary: t)
    case Nil
    then show ?case by simp
  next
    case (Cons a rest)
    show ?case
    proof (cases "bad_pair ob True m a \<and> a \<in> set (t Available)")
      case True
      with Cons.prems
      have "remove_bad_inner ob True m Available rest (t(Available := remove1 a (t Available)))
              = Inr t'"
        by (simp add: list_remove_def)
      from Cons.IH [OF this] True show ?thesis
        by (simp add: length_remove1)
    next
      case False
      with Cons.prems have "remove_bad_inner ob True m Available rest t = Inr t'"
        by (auto simp: list_remove_def split: if_splits)
      from Cons.IH [OF this] show ?thesis .
    qed
  qed
  have outer: "length (t' Available) \<le> length (t Available)"
    if "remove_bad_outer ob True ms Available t = Inr t'" for ms and t t' :: "'m store"
    using that
  proof (induction ms arbitrary: t)
    case Nil
    then show ?case by simp
  next
    case (Cons m ms)
    then obtain u where u: "remove_bad_inner ob True m Available (t Available) t = Inr u"
      and r: "remove_bad_outer ob True ms Available u = Inr t'"
      by (auto split: sum.splits)
    from inner [OF u] Cons.IH [OF r] show ?case by simp
  qed
  from pop c have "length (s1 Available) < length (s Available)"
    by (auto simp: list_pop_def Let_def split: if_splits)
  moreover from rem have "s2 Available = s1 Available"
    by (auto simp: list_remove_def list_append_def split: if_splits)
  moreover from bad have "length (s3 Available) \<le> length (s2 Available)"
    by (simp add: remove_bad_mutations_def outer)
  ultimately show "((ob, order, s3), ob, order, s) \<in>
      measure (\<lambda>(ob, order, s). length (s Available))"
    by simp
qed

text \<open>
  A generator is modelled by its method \<^verbatim>\<open>__next__\<close>: from the state in which the
  generator is suspended it gives the exception raised, or \<open>None\<close> for \<^verbatim>\<open>StopIteration\<close>,
  or the items of the list yielded and the state in which the generator waits again.
  One round of the outer loop \<^verbatim>\<open>while mutations\<close> of Each-Choice:
\<close>

definition each_choice_next ::
  "('m, 'n, 'o) attributes \<Rightarrow> int \<Rightarrow> 'm store \<Rightarrow> py_error + ('m list \<times> 'm store) option" where
  "each_choice_next ob order s =
     (if s Copy = [] then Inr None
      else (case each_choice_inner ob order (list_copy Available Copy (list_new ToApply s)) of
              Inl e \<Rightarrow> Inl e
            | Inr s' \<Rightarrow> Inr (Some (s' ToApply, s'))))"

subsection \<open>First-to-Last\<close>

text \<open>
  The inner loop of \<^verbatim>\<open>FirstToLastHOMStrategy.generate\<close>: as Each-Choice, with the
  index of the \<^verbatim>\<open>pop\<close> switching between 0 and -1 at the end of the \<^verbatim>\<open>try\<close> block.
\<close>

function first_to_last_inner ::
  "('m, 'n, 'o) attributes \<Rightarrow> int \<Rightarrow> int \<Rightarrow> 'm store \<Rightarrow> py_error + 'm store" where
  "first_to_last_inner ob order index s =
     (if int (length (s ToApply)) < order \<and> s Available \<noteq> []
      then (case list_pop Available index s of
              Inl e \<Rightarrow> (if e = IndexError then Inr s else Inl e)
            | Inr (mutation, s1) \<Rightarrow>
                (case list_remove Copy mutation (list_append ToApply mutation s1) of
                   Inl e \<Rightarrow>
                     (if e = IndexError then Inr (list_append ToApply mutation s1) else Inl e)
                 | Inr s2 \<Rightarrow>
                     (case remove_bad_mutations ob ToApply Available True s2 of
                        Inl e \<Rightarrow> Inl e
                      | Inr s3 \<Rightarrow>
                          first_to_last_inner ob order (if index = - 1 then 0 else - 1) s3)))
      else Inr s)"
  by pat_completeness auto
termination
proof (relation "measure (\<lambda>(ob, order, index, s). length (s Available))")
  show "wf (measure (\<lambda>(ob :: ('m, 'n, 'o) attributes, order :: int, index :: int,
              s :: 'm store). length (s Available)))"
    by simp
next
  fix ob :: "('m, 'n, 'o) attributes" and order index :: int and s :: "'m store"
    and x2 mutation and s1 s2 s3 :: "'m store"
  assume c: "int (length (s ToApply)) < order \<and> s Available \<noteq> []"
    and pop: "list_pop Available index s = Inr x2" "(mutation, s1) = x2"
    and rem: "list_remove Copy mutation (list_append ToApply mutation s1) = Inr s2"
    and bad: "remove_bad_mutations ob ToApply Available True s2 = Inr s3"
  have inner: "length (t' Available) \<le> length (t Available)"
    if "remove_bad_inner ob True m Available rest t = Inr t'" for m rest and t t' :: "'m store"
    using that
  proof (induction rest arbitrary: t)
    case Nil
    then show ?case by simp
  next
    case (Cons a rest)
    show ?case
    proof (cases "bad_pair ob True m a \<and> a \<in> set (t Available)")
      case True
      with Cons.prems
      have "remove_bad_inner ob True m Available rest (t(Available := remove1 a (t Available)))
              = Inr t'"
        by (simp add: list_remove_def)
      from Cons.IH [OF this] True show ?thesis
        by (simp add: length_remove1)
    next
      case False
      with Cons.prems have "remove_bad_inner ob True m Available rest t = Inr t'"
        by (auto simp: list_remove_def split: if_splits)
      from Cons.IH [OF this] show ?thesis .
    qed
  qed
  have outer: "length (t' Available) \<le> length (t Available)"
    if "remove_bad_outer ob True ms Available t = Inr t'" for ms and t t' :: "'m store"
    using that
  proof (induction ms arbitrary: t)
    case Nil
    then show ?case by simp
  next
    case (Cons m ms)
    then obtain u where u: "remove_bad_inner ob True m Available (t Available) t = Inr u"
      and r: "remove_bad_outer ob True ms Available u = Inr t'"
      by (auto split: sum.splits)
    from inner [OF u] Cons.IH [OF r] show ?case by simp
  qed
  from pop c have "length (s1 Available) < length (s Available)"
    by (auto simp: list_pop_def Let_def split: if_splits)
  moreover from rem have "s2 Available = s1 Available"
    by (auto simp: list_remove_def list_append_def split: if_splits)
  moreover from bad have "length (s3 Available) \<le> length (s2 Available)"
    by (simp add: remove_bad_mutations_def outer)
  ultimately show "((ob, order, if index = - 1 then 0 else - 1, s3), ob, order, index, s) \<in>
      measure (\<lambda>(ob, order, index, s). length (s Available))"
    by simp
qed

definition first_to_last_next ::
  "('m, 'n, 'o) attributes \<Rightarrow> int \<Rightarrow> 'm store \<Rightarrow> py_error + ('m list \<times> 'm store) option" where
  "first_to_last_next ob order s =
     (if s Copy = [] then Inr None
      else (case first_to_last_inner ob order 0 (list_copy Available Copy (list_new ToApply s)) of
              Inl e \<Rightarrow> Inl e
            | Inr s' \<Rightarrow> Inr (Some (s' ToApply, s'))))"

subsection \<open>Between-Operators\<close>

text \<open>
  The dictionary \<^verbatim>\<open>usage\<close> is a map from the mutations to their counts, which start at
  0 and are only incremented; reading a key that is missing raises \<^verbatim>\<open>KeyError\<close>.
  The state of the generator is the dictionary and the store. \<^verbatim>\<open>list.sort\<close> is stable,
  as \<open>sort_key\<close> is.
\<close>

definition list_sort_by_usage ::
  "('m \<rightharpoonup> nat) \<Rightarrow> list_ref \<Rightarrow> 'm store \<Rightarrow> py_error + 'm store" where
  "list_sort_by_usage usage r s =
     (if list_all (\<lambda>x. usage x \<noteq> None) (s r)
      then Inr (s(r := sort_key (\<lambda>x. case usage x of Some k \<Rightarrow> k | None \<Rightarrow> 0) (s r)))
      else Inl KeyError)"

function between_operators_inner ::
  "('m, 'n, 'o) attributes \<Rightarrow> int \<Rightarrow> ('m \<rightharpoonup> nat) \<Rightarrow> 'm store \<Rightarrow>
   py_error + (('m \<rightharpoonup> nat) \<times> 'm store)" where
  "between_operators_inner ob order usage s =
     (if int (length (s ToApply)) < order \<and> s Available \<noteq> []
      then (case list_pop Available 0 s of
              Inl e \<Rightarrow> Inl e
            | Inr (mutation, s1) \<Rightarrow>
                (case usage mutation of
                   None \<Rightarrow> Inl KeyError
                 | Some k \<Rightarrow>
                     (case (if k = 0
                            then list_remove Copy mutation (list_append ToApply mutation s1)
                            else Inr (list_append ToApply mutation s1)) of
                        Inl e \<Rightarrow> Inl e
                      | Inr s2 \<Rightarrow>
                          (case remove_bad_mutations ob ToApply Available False s2 of
                             Inl e \<Rightarrow> Inl e
                           | Inr s3 \<Rightarrow>
                               between_operators_inner ob order (usage(mutation \<mapsto> k + 1)) s3))))
      else Inr (usage, s))"
  by pat_completeness auto
termination
proof (relation "measure (\<lambda>(ob, order, usage, s). length (s Available))")
  show "wf (measure (\<lambda>(ob :: ('m, 'n, 'o) attributes, order :: int, usage :: 'm \<rightharpoonup> nat,
              s :: 'm store). length (s Available)))"
    by simp
next
  fix ob :: "('m, 'n, 'o) attributes" and order :: int and usage :: "'m \<rightharpoonup> nat"
    and s :: "'m store" and x2 mutation and k :: nat and s1 s2 s3 :: "'m store"
  assume c: "int (length (s ToApply)) < order \<and> s Available \<noteq> []"
    and pop: "list_pop Available 0 s = Inr x2" "(mutation, s1) = x2"
    and rem: "(if k = 0 then list_remove Copy mutation (list_append ToApply mutation s1)
               else Inr (list_append ToApply mutation s1)) = Inr s2"
    and bad: "remove_bad_mutations ob ToApply Available False s2 = Inr s3"
  have inner: "length (t' Available) \<le> length (t Available)"
    if "remove_bad_inner ob False m Available rest t = Inr t'" for m rest and t t' :: "'m store"
    using that
  proof (induction rest arbitrary: t)
    case Nil
    then show ?case by simp
  next
    case (Cons a rest)
    show ?case
    proof (cases "bad_pair ob False m a \<and> a \<in> set (t Available)")
      case True
      with Cons.prems
      have "remove_bad_inner ob False m Available rest (t(Available := remove1 a (t Available)))
              = Inr t'"
        by (simp add: list_remove_def)
      from Cons.IH [OF this] True show ?thesis
        by (simp add: length_remove1)
    next
      case False
      with Cons.prems have "remove_bad_inner ob False m Available rest t = Inr t'"
        by (auto simp: list_remove_def split: if_splits)
      from Cons.IH [OF this] show ?thesis .
    qed
  qed
  have outer: "length (t' Available) \<le> length (t Available)"
    if "remove_bad_outer ob False ms Available t = Inr t'" for ms and t t' :: "'m store"
    using that
  proof (induction ms arbitrary: t)
    case Nil
    then show ?case by simp
  next
    case (Cons m ms)
    then obtain u where u: "remove_bad_inner ob False m Available (t Available) t = Inr u"
      and r: "remove_bad_outer ob False ms Available u = Inr t'"
      by (auto split: sum.splits)
    from inner [OF u] Cons.IH [OF r] show ?case by simp
  qed
  from pop c have "length (s1 Available) < length (s Available)"
    by (auto simp: list_pop_def Let_def split: if_splits)
  moreover from rem have "s2 Available = s1 Available"
    by (auto simp: list_remove_def list_append_def split: if_splits)
  moreover from bad have "length (s3 Available) \<le> length (s2 Available)"
    by (simp add: remove_bad_mutations_def outer)
  ultimately show "((ob, order, usage(mutation \<mapsto> k + 1), s3), ob, order, usage, s) \<in>
      measure (\<lambda>(ob, order, usage, s). length (s Available))"
    by simp
qed

text \<open>The first two lines of the method, and one round of the loop \<^verbatim>\<open>while not_used\<close>.\<close>

definition between_operators_start :: "'m store \<Rightarrow> ('m \<rightharpoonup> nat) \<times> 'm store" where
  "between_operators_start s =
     ((\<lambda>mutation. if mutation \<in> set (s Caller) then Some 0 else None), list_copy Copy Caller s)"

definition between_operators_next ::
  "('m, 'n, 'o) attributes \<Rightarrow> int \<Rightarrow> ('m \<rightharpoonup> nat) \<times> 'm store \<Rightarrow>
   py_error + ('m list \<times> ('m \<rightharpoonup> nat) \<times> 'm store) option" where
  "between_operators_next ob order st =
     (case st of (usage, s) \<Rightarrow>
        if s Copy = [] then Inr None
        else (case list_sort_by_usage usage Available
                     (list_copy Available Caller (list_new ToApply s)) of
                Inl e \<Rightarrow> Inl e
              | Inr s1 \<Rightarrow>
                  (case between_operators_inner ob order usage s1 of
                     Inl e \<Rightarrow> Inl e
                   | Inr (usage', s2) \<Rightarrow> Inr (Some (s2 ToApply, usage', s2)))))"

subsection \<open>Consuming a generator\<close>

text \<open>
  The caller takes the groups one by one until \<^verbatim>\<open>StopIteration\<close>. The outer loops of the
  strategies need not end, so the number of calls of \<^verbatim>\<open>__next__\<close> is bounded by the
  first argument: \<open>None\<close> says that the generator had not ended within the bound.
  Otherwise the result is the exception that left the generator, or the groups in the
  order yielded, with the final state.
\<close>

fun consume ::
  "nat \<Rightarrow> ('s \<Rightarrow> py_error + ('g \<times> 's) option) \<Rightarrow> 's \<Rightarrow> (py_error + 'g list \<times> 's) option" where
  "consume 0 nxt s = None"
| "consume (Suc fuel) nxt s =
     (case nxt s of
        Inl e \<Rightarrow> Some (Inl e)
      | Inr None \<Rightarrow> Some (Inr ([], s))
      | Inr (Some (g, s')) \<Rightarrow>
          (case consume fuel nxt s' of
             None \<Rightarrow> None
           | Some (Inl e) \<Rightarrow> Some (Inl e)
           | Some (Inr (gs, s'')) \<Rightarrow> Some (Inr (g # gs, s''))))"

text \<open>
  The four methods \<^verbatim>\<open>generate\<close>, consumed to the end. Random applies the shuffler to
  its copy of the list (\<open>shuffler\<close> gives the items of the list after the call; the
  default is \<^verbatim>\<open>random.shuffle\<close>) and then runs a loop that is, word for word, the loop of
  Each-Choice.
\<close>

definition each_choice_generate ::
  "nat \<Rightarrow> ('m, 'n, 'o) attributes \<Rightarrow> int \<Rightarrow> 'm store \<Rightarrow> (py_error + 'm list list \<times> 'm store) option"
  where
  "each_choice_generate fuel ob order s =
     consume fuel (each_choice_next ob order) (list_copy Copy Caller s)"

definition first_to_last_generate ::
  "nat \<Rightarrow> ('m, 'n, 'o) attributes \<Rightarrow> int \<Rightarrow> 'm store \<Rightarrow> (py_error + 'm list list \<times> 'm store) option"
  where
  "first_to_last_generate fuel ob order s =
     consume fuel (first_to_last_next ob order) (list_copy Copy Caller s)"

definition random_generate ::
  "nat \<Rightarrow> ('m, 'n, 'o) attributes \<Rightarrow> ('m list \<Rightarrow> 'm list) \<Rightarrow> int \<Rightarrow> 'm store \<Rightarrow>
   (py_error + 'm list list \<times> 'm store) option" where
  "random_generate fuel ob shuffler order s =
     consume fuel (each_choice_next ob order)
       (let s1 = list_copy Copy Caller s in s1(Copy := shuffler (s1 Copy)))"

definition between_operators_generate ::
  "nat \<Rightarrow> ('m, 'n, 'o) attributes \<Rightarrow> int \<Rightarrow> 'm store \<Rightarrow>
   (py_error + 'm list list \<times> ('m \<rightharpoonup> nat) \<times> 'm store) option" where
  "between_operators_generate fuel ob order s =
     consume fuel (between_operators_next ob order) (between_operators_start s)"


section \<open>Vocabulary of the properties\<close>

text \<open>
  The four outcome counters of a score, in the order killed, timeout, incompetent,
  survived.
\<close>

definition counters :: "mutation_score \<Rightarrow> int list" where
  "counters s = [killed_mutants s, timeout_mutants s, incompetent_mutants s, survived_mutants s]"

text \<open>
  The four classifications of a mutant, the counter of each, and the notification that
  reports each. \<open>counted_once cls s s'\<close> says that from the score \<open>s\<close> to the score \<open>s'\<close>
  the counter of \<open>cls\<close> went up by one and nothing else changed.
\<close>

datatype classification = Killed | TimedOut | Incompetent | Survived

fun counter_of :: "classification \<Rightarrow> mutation_score \<Rightarrow> int" where
  "counter_of Killed s = killed_mutants s"
| "counter_of TimedOut s = timeout_mutants s"
| "counter_of Incompetent s = incompetent_mutants s"
| "counter_of Survived s = survived_mutants s"

fun reports :: "classification \<Rightarrow> ('m, 'ast) notification \<Rightarrow> bool" where
  "reports cls (NotifyTimeout d) = (cls = TimedOut)"
| "reports cls (NotifyIncompetent d e n) = (cls = Incompetent)"
| "reports cls (NotifySurvived d n) = (cls = Survived)"
| "reports cls (NotifyKilled d k t n) = (cls = Killed)"
| "reports cls other = False"

definition counted_once :: "classification \<Rightarrow> mutation_score \<Rightarrow> mutation_score \<Rightarrow> bool" where
  "counted_once cls s s' \<longleftrightarrow>
     list_all (\<lambda>k. counter_of k s' = counter_of k s + (if k = cls then 1 else 0))
       [Killed, TimedOut, Incompetent, Survived] \<and>
     covered_nodes s' = covered_nodes s \<and> all_nodes s' = all_nodes s"




inductive descendant :: "('m, 'n, 'o) attributes \<Rightarrow> 'n \<Rightarrow> 'n \<Rightarrow> bool"
  for ob :: "('m, 'n, 'o) attributes" where
  child: "d \<in> set (children ob a) \<Longrightarrow> descendant ob d a"
| below: "descendant ob d c \<Longrightarrow> c \<in> set (children ob a) \<Longrightarrow> descendant ob d a"

definition lists_descendants :: "('m, 'n, 'o) attributes \<Rightarrow> bool" where
  "lists_descendants ob \<longleftrightarrow>
     (\<forall>a c. c \<in> set (children ob a) \<longrightarrow> set (children ob c) \<subseteq> set (children ob a))"

definition in_conflict :: "('m, 'n, 'o) attributes \<Rightarrow> 'm \<Rightarrow> 'm \<Rightarrow> bool" where
  "in_conflict ob a b \<longleftrightarrow>
     node ob a = node ob b \<or> descendant ob (node ob a) (node ob b) \<or>
     descendant ob (node ob b) (node ob a)"

definition conflict_free :: "('m, 'n, 'o) attributes \<Rightarrow> 'm list \<Rightarrow> bool" where
  "conflict_free ob g \<longleftrightarrow>
     (\<forall>i j. i < j \<and> j < length g \<longrightarrow> \<not> in_conflict ob (g ! i) (g ! j))"

definition groups_of :: "(py_error + 'g list \<times> 's) option \<Rightarrow> (py_error + 'g list) option" where
  "groups_of r = map_option (map_sum id fst) r"

text \<open>
  One round of a loop that pops \<open>x\<close>, leaving \<open>ys\<close>, and finds \<open>x\<close> in the copy: the
  store after \<^verbatim>\<open>remove_bad_mutations\<close>.
\<close>

definition after_round ::
  "('m, 'n, 'o) attributes \<Rightarrow> bool \<Rightarrow> 'm \<Rightarrow> 'm list \<Rightarrow> 'm list \<Rightarrow> 'm store \<Rightarrow> 'm store" where
  "after_round ob allow x ys copy s =
     s(Available := filter (\<lambda>am. \<forall>m\<in>set (s ToApply @ [x]). \<not> bad_pair ob allow m am) ys,
       ToApply := s ToApply @ [x], Copy := copy)"

definition group_invariant :: "('m, 'n, 'o) attributes \<Rightarrow> bool \<Rightarrow> 'm store \<Rightarrow> bool" where
  "group_invariant ob allow s \<longleftrightarrow>
     sorted_wrt (\<lambda>a b. \<not> bad_pair ob allow a b) (s ToApply) \<and>
     (\<forall>a\<in>set (s Available). \<forall>m\<in>set (s ToApply). \<not> bad_pair ob allow m a)"

definition usage_invariant :: "('m \<rightharpoonup> nat) \<Rightarrow> 'm store \<Rightarrow> bool" where
  "usage_invariant usage s \<longleftrightarrow>
     (\<forall>m\<in>set (s Caller). usage m \<noteq> None) \<and> distinct (s Copy) \<and>
     (\<forall>m. m \<in> set (s Copy) \<longleftrightarrow> m \<in> set (s Caller) \<and> usage m = Some 0)"


section \<open>Example configurations\<close>

text \<open>
  Concrete scores, configurations and collaborators on which the theorems below are
  instantiated. In \<open>example_env\<close> one test module passes with three tests in two seconds
  and the generator yields three mutants of one target: the tests of the first time out,
  the second survives, the third does not build.
\<close>

definition example_score :: mutation_score where
  "example_score =
     \<lparr>killed_mutants = 3, timeout_mutants = 1, incompetent_mutants = 2,
      survived_mutants = 4, covered_nodes = 0, all_nodes = 0\<rparr>"

definition example_config :: controller_config where
  "example_config =
     \<lparr>timeout_factor = 5, mutate_covered = False, mutation_number = None,
      target_names = [''target''], test_names = [''test_target'']\<rparr>"

definition example_result :: "bool \<Rightarrow> bool \<Rightarrow> mutation_test_result" where
  "example_result inc sur =
     \<lparr>is_incompetent = inc, is_survived = sur, killer = ''test_one'',
      exception_traceback = ''traceback'', exception = ''error'', tests_run = 3\<rparr>"

definition example_env :: "(nat, nat, nat, nat) collaborators" where
  "example_env =
     \<lparr>test_loader_load = [Loaded (''test_target'', [])],
      run_test = (\<lambda>test_module target_test. (\<lparr>wasSuccessful = True, testsRun = 3\<rparr>, 2)),
      target_loader_load = (\<lambda>names. [Loaded (''target'', [])]),
      create_target_ast = (\<lambda>name. 0),
      coverage_inject = (\<lambda>tree name. 9),
      inject_coverage_result = (\<lambda>tree name. (0, 0)),
      mutant_generator_mutate = (\<lambda>tree name. [Inr ([1], 1), Inr ([2], 2), Inr ([3], 3)]),
      create_module = (\<lambda>tree name. if tree = 3 then Inl ''invalid syntax'' else Inr tree),
      create_test_suite = Inr,
      mark_not_covered_tests_as_skip = (\<lambda>mutations suite. suite),
      runner_get_result =
        (\<lambda>suite deadline. if suite = 1 then None else Some (example_result False True)),
      timer_duration = (\<lambda>suite. 1),
      run_duration = 30\<rparr>"

text \<open>The same run with the filter set to the second mutant.\<close>

definition filter_config :: controller_config where
  "filter_config = example_config\<lparr>mutation_number := Some 2\<rparr>"

definition fresh_controller :: "(nat, nat) controller" where
  "fresh_controller = \<lparr>score = MutationScore, views = []\<rparr>"

text \<open>
  A higher-order generator with one operator and one group of two mutations; the
  operator does not find the second mutation again once the first is applied.
\<close>

definition failing_operator_mutate :: "nat \<Rightarrow> nat \<Rightarrow> nat option \<Rightarrow> (nat \<times> nat) list" where
  "failing_operator_mutate op tree only_mutation =
     (case only_mutation of
        None \<Rightarrow> [(1, 1), (2, 2)]
      | Some m \<Rightarrow> if m = 2 then [] else [(m, tree + m)])"

definition failing_env :: "(nat, nat, nat, nat) collaborators" where
  "failing_env =
     example_env\<lparr>mutant_generator_mutate :=
       (\<lambda>tree name. HighOrderMutator_mutate [0] (\<lambda>m. 0) failing_operator_mutate
                       (\<lambda>ms. [ms]) tree)\<rparr>"











text \<open>
  Mutations for the strategies. In \<open>flat_mutations\<close> every mutation has a node of its
  own and no node has children; the operators alternate. In \<open>tree_mutations\<close> the
  mutation \<open>10 * n + k\<close> is the one of operator \<open>k\<close> at node \<open>n\<close>; node 0 is the parent
  of the nodes 1 and 2, and node 1 the parent of node 3. \<open>input_store\<close> is a store in
  which the caller's list holds the given mutations.
\<close>

definition flat_mutations :: "(nat, nat, nat) attributes" where
  "flat_mutations = \<lparr>node = (\<lambda>m. m), operator = (\<lambda>m. m mod 2), children = (\<lambda>n. [])\<rparr>"

definition tree_mutations :: "(nat, nat, nat) attributes" where
  "tree_mutations =
     \<lparr>node = (\<lambda>m. m div 10), operator = (\<lambda>m. m mod 10),
      children = (\<lambda>n. if n = 0 then [1, 3, 2] else if n = 1 then [3] else [])\<rparr>"

definition input_store :: "nat list \<Rightarrow> nat store" where
  "input_store xs = (\<lambda>r. [])(Caller := xs)"

definition other_store :: "nat list \<Rightarrow> nat store" where
  "other_store xs = (\<lambda>r. [7, 8, 9])(Caller := xs)"

section \<open>Properties of the score\<close>

lemma all_mutants_simps:
  "all_mutants (inc_killed s) = all_mutants s + 1"
  "all_mutants (inc_timeout s) = all_mutants s + 1"
  "all_mutants (inc_incompetent s) = all_mutants s + 1"
  "all_mutants (inc_survived s) = all_mutants s + 1"
  "all_mutants (update_coverage a b s) = all_mutants s"
  by (simp_all add: all_mutants_def inc_killed_def inc_timeout_def inc_incompetent_def
      inc_survived_def update_coverage_def)

text \<open>
  Claim C1. For every score, \<^verbatim>\<open>count\<close> returns (killed + timeout) / (all - incompetent)
  * 100 when all - incompetent is not zero, and 0 when all equals incompetent; this
  includes the score in which nothing has been classified.
\<close>

theorem count_formula:
  "(all_mutants s - incompetent_mutants s \<noteq> 0 \<longrightarrow>
      count_score s =
        real_of_int (killed_mutants s + timeout_mutants s) /
        real_of_int (all_mutants s - incompetent_mutants s) * 100) \<and>
   (all_mutants s = incompetent_mutants s \<longrightarrow> count_score s = 0) \<and>
   count_score MutationScore = 0"
  by (simp add: count_score_def Let_def MutationScore_def all_mutants_def)

theorem count_formula_witness:
  "all_mutants example_score - incompetent_mutants example_score \<noteq> 0 \<and>
   count_score example_score = 50 \<and>
   all_mutants (inc_incompetent MutationScore) = incompetent_mutants (inc_incompetent MutationScore) \<and>
   count_score (inc_incompetent MutationScore) = 0"
  using count_formula [of example_score] count_formula [of "inc_incompetent MutationScore"]
  by (simp add: example_score_def all_mutants_def inc_incompetent_def MutationScore_def)

section \<open>Properties of the controller\<close>

text \<open>
  Claim C7. The deadline that \<^verbatim>\<open>run_mutation_test_runner\<close> gives to the runner is the
  timeout factor times the larger of the baseline duration and 1: the factor itself for
  a duration of at most 1, the factor times the duration above 1.
\<close>

theorem live_time_deadline:
  "live_time factor d = factor * max d 1 \<and>
   (d \<le> 1 \<longrightarrow> live_time factor d = factor) \<and>
   (1 < d \<longrightarrow> live_time factor d = factor * d) \<and>
   run_mutation_test_runner cfg env suite d =
     runner_get_result env suite (timeout_factor cfg * max d 1)"
  by (simp add: live_time_def run_mutation_test_runner_def max_def)

theorem live_time_deadline_witness:
  "(1/2 :: real) \<le> 1 \<and> live_time 5 (1/2) = 5 \<and> (1 :: real) < 3 \<and> live_time 5 3 = 15 \<and>
   run_mutation_test_runner example_config example_env 1 3 = None"
  using live_time_deadline [of 5 "1/2" example_config example_env 1]
    live_time_deadline [of 5 3 example_config example_env 1]
  by (simp add: example_env_def)

lemmas score_defs = all_mutants_def inc_killed_def inc_timeout_def inc_incompetent_def
  inc_survived_def update_coverage_def counters_def

lemmas update_defs = update_score_and_notify_views_def update_timeout_mutant_def
  update_incompetent_mutant_def update_survived_mutant_def update_killed_mutant_def notify_def

lemma counted_once_simps:
  "counted_once Killed s (inc_killed s)"
  "counted_once TimedOut s (inc_timeout s)"
  "counted_once Incompetent s (inc_incompetent s)"
  "counted_once Survived s (inc_survived s)"
  by (simp_all add: counted_once_def inc_killed_def inc_timeout_def inc_incompetent_def
      inc_survived_def)

lemma counted_once_unique:
  "counted_once k s s' \<Longrightarrow> counted_once k' s s' \<Longrightarrow> k = k'"
  by (cases k; cases k') (simp_all add: counted_once_def)

lemma update_score_cases:
  "result = None \<Longrightarrow>
     update_score_and_notify_views result d c =
       c\<lparr>score := inc_timeout (score c), views := views c @ [NotifyTimeout d]\<rparr>"
  "result = Some r \<Longrightarrow> is_incompetent r \<Longrightarrow>
     update_score_and_notify_views result d c =
       c\<lparr>score := inc_incompetent (score c),
         views := views c @ [NotifyIncompetent d (exception r) (tests_run r)]\<rparr>"
  "result = Some r \<Longrightarrow> \<not> is_incompetent r \<Longrightarrow> is_survived r \<Longrightarrow>
     update_score_and_notify_views result d c =
       c\<lparr>score := inc_survived (score c),
         views := views c @ [NotifySurvived d (tests_run r)]\<rparr>"
  "result = Some r \<Longrightarrow> \<not> is_incompetent r \<Longrightarrow> \<not> is_survived r \<Longrightarrow>
     update_score_and_notify_views result d c =
       c\<lparr>score := inc_killed (score c),
         views := views c @ [NotifyKilled d (killer r) (exception_traceback r) (tests_run r)]\<rparr>"
  by (simp_all add: update_defs)

lemma update_score_linked:
  "\<exists>cls n. counted_once cls (score c) (score (update_score_and_notify_views result d c)) \<and>
     reports cls n \<and> views (update_score_and_notify_views result d c) = views c @ [n]"
proof (cases result)
  case None
  from update_score_cases(1) [OF this, of d c] show ?thesis
    by (intro exI [of _ TimedOut] exI [of _ "NotifyTimeout d"]) (simp add: counted_once_simps)
next
  case (Some r)
  consider "is_incompetent r" | "\<not> is_incompetent r" "is_survived r"
    | "\<not> is_incompetent r" "\<not> is_survived r" by blast
  then show ?thesis
  proof cases
    case 1
    from update_score_cases(2) [OF Some this, of d c] show ?thesis
      by (intro exI [of _ Incompetent] exI [of _ "NotifyIncompetent d (exception r) (tests_run r)"])
        (simp add: counted_once_simps)
  next
    case 2
    from update_score_cases(3) [OF Some this, of d c] show ?thesis
      by (intro exI [of _ Survived] exI [of _ "NotifySurvived d (tests_run r)"])
        (simp add: counted_once_simps)
  next
    case 3
    from update_score_cases(4) [OF Some this, of d c] show ?thesis
      by (intro exI [of _ Killed]
          exI [of _ "NotifyKilled d (killer r) (exception_traceback r) (tests_run r)"])
        (simp add: counted_once_simps)
  qed
qed

lemma update_score_all_mutants:
  "all_mutants (score (update_score_and_notify_views result d c)) = all_mutants (score c) + 1"
  by (cases result) (auto simp: update_defs score_defs)

lemma fold_update_all_mutants:
  "all_mutants (score (fold (\<lambda>(r, d). update_score_and_notify_views r d) rs c)) =
     all_mutants (score c) + int (length rs)"
  by (induction rs arbitrary: c) (auto simp: update_score_all_mutants)

lemma filtered_step:
  "filtered_out (mutation_number cfg) (all_mutants (score c) + 1) \<Longrightarrow>
   mutate_module_loop cfg env tm d cov (Inr (ms, a) # rest) c =
     mutate_module_loop cfg env tm d cov rest (c\<lparr>score := inc_incompetent (score c)\<rparr>)"
  by simp

lemma unfiltered_step:
  assumes nf: "\<not> filtered_out (mutation_number cfg) (all_mutants (score c) + 1)"
    and run: "mutate_module_loop cfg env tm d cov [Inr (ms, a)] c = (None, c')"
  shows "\<exists>cls n. counted_once cls (score c) (score c') \<and> reports cls n \<and>
           views c' = views c @ [NotifyMutation (all_mutants (score c) + 1) ms tm a, n]"
proof (cases "create_module env a tm")
  case (Inl exc)
  with nf run
  have "c' = c\<lparr>score := inc_incompetent (score c),
                views := views c @ [NotifyMutation (all_mutants (score c) + 1) ms tm a,
                                    NotifyIncompetent 0 exc 0]\<rparr>"
    by (auto simp: Let_def create_mutant_module_def notify_def)
  then show ?thesis
    by (intro exI [of _ Incompetent] exI [of _ "NotifyIncompetent 0 exc 0"])
      (simp add: counted_once_simps)
next
  case (Inr m)
  let ?c = "notify (NotifyMutation (all_mutants (score c) + 1) ms tm a) c"
  from nf run Inr obtain result dur where
    c': "c' = update_score_and_notify_views result dur ?c"
    by (auto simp: Let_def create_mutant_module_def run_tests_with_mutant_def
        split: sum.splits)
  from update_score_linked [of ?c result dur] obtain cls n where
    "counted_once cls (score ?c) (score c')" "reports cls n" "views c' = views ?c @ [n]"
    unfolding c' by blast
  then show ?thesis
    by (intro exI [of _ cls] exI [of _ n]) (simp add: notify_def)
qed

lemma run_tests_all_mutants:
  "run_tests_with_mutant cfg env d m ms cov c = (None, c') \<Longrightarrow>
   all_mutants (score c') = all_mutants (score c) + 1"
  by (auto simp: run_tests_with_mutant_def Let_def update_score_all_mutants split: sum.splits)

lemma run_tests_raises:
  "run_tests_with_mutant cfg env d m ms cov c = (Some e, c') \<Longrightarrow> c' = c"
  by (auto simp: run_tests_with_mutant_def Let_def split: sum.splits)

lemma create_mutant_module_score:
  "create_mutant_module env tm a c = (r, c') \<Longrightarrow> score c' = score c"
  by (auto simp: create_mutant_module_def notify_def split: sum.splits)

lemma mutate_module_loop_all_mutants:
  "mutate_module_loop cfg env tm d cov items c = (None, c') \<Longrightarrow>
   all_mutants (score c') = all_mutants (score c) + int (length items)"
proof (induction items arbitrary: c)
  case Nil
  then show ?case by simp
next
  case (Cons item rest)
  show ?case
  proof (cases item)
    case (Inl e)
    with Cons.prems show ?thesis by simp
  next
    case (Inr p)
    obtain ms a where p: "p = (ms, a)" by (cases p)
    let ?n = "all_mutants (score c) + 1"
    show ?thesis
    proof (cases "filtered_out (mutation_number cfg) ?n")
      case True
      with Cons.prems Inr p
      have "mutate_module_loop cfg env tm d cov rest (c\<lparr>score := inc_incompetent (score c)\<rparr>)
              = (None, c')" by simp
      from Cons.IH [OF this] show ?thesis by (simp add: all_mutants_simps)
    next
      case False
      obtain r c2 where cm: "create_mutant_module env tm a (notify (NotifyMutation ?n ms tm a) c) = (r, c2)"
        by (cases "create_mutant_module env tm a (notify (NotifyMutation ?n ms tm a) c)")
      from create_mutant_module_score [OF cm] have sc2: "score c2 = score c"
        by (simp add: notify_def)
      show ?thesis
      proof (cases r)
        case None
        with Cons.prems Inr p False cm
        have "mutate_module_loop cfg env tm d cov rest (c2\<lparr>score := inc_incompetent (score c2)\<rparr>)
              = (None, c')" by (simp add: Let_def)
        from Cons.IH [OF this] sc2 show ?thesis by (simp add: all_mutants_simps)
      next
        case (Some m)
        obtain e3 c3 where rt: "run_tests_with_mutant cfg env d m ms cov c2 = (e3, c3)"
          by (cases "run_tests_with_mutant cfg env d m ms cov c2")
        with Cons.prems Inr p False cm Some have e3: "e3 = None"
          and "mutate_module_loop cfg env tm d cov rest c3 = (None, c')"
          by (auto simp: Let_def split: option.splits)
        from Cons.IH [OF this(2)] run_tests_all_mutants [OF rt [unfolded e3]] sc2
        show ?thesis by simp
      qed
    qed
  qed
qed

lemmas example_defs = example_config_def example_env_def example_result_def filter_config_def
  fresh_controller_def failing_env_def failing_operator_mutate_def

lemmas controller_defs = run_def run_mutation_process_def load_and_check_tests_def
  mutate_module_def inject_coverage_def filtered_out_def create_mutant_module_def
  run_tests_with_mutant_def run_mutation_test_runner_def live_time_def MutationScore_def Let_def
  HighOrderMutator_mutate_def generate_all_mutations_def finish_generators_def


text \<open>
  Claim C2, as amended. A call of \<^verbatim>\<open>update_score_and_notify_views\<close> adds one to exactly
  one of the four counters, changes nothing else of the score and emits exactly one
  notification, the one that reports that classification: a timeout when there is no
  result, else incompetent, survived or killed as the result says, with the duration,
  the number of tests run and, for incompetent and killed, the error. The
  classification counted is unique. \<^verbatim>\<open>all_mutants\<close> is the sum of the four counters, and
  any sequence of calls adds to it the number of calls; a loop of \<^verbatim>\<open>mutate_module\<close>
  that ends normally has added to it the number of mutants
  taken from the generator. A mutant that the \<^verbatim>\<open>mutation_number\<close> filter skips adds one
  to the incompetent counter and emits no notification; every other mutant that is
  processed to its end emits the notification of the mutant and then exactly one
  notification, which reports the classification whose counter it adds one to.
\<close>

theorem classification_counts_and_notifies:
  "(\<exists>cls n. counted_once cls (score c) (score (update_score_and_notify_views result d c)) \<and>
      reports cls n \<and> views (update_score_and_notify_views result d c) = views c @ [n]) \<and>
   (result = None \<longrightarrow>
      counted_once TimedOut (score c) (score (update_score_and_notify_views result d c)) \<and>
      views (update_score_and_notify_views result d c) = views c @ [NotifyTimeout d]) \<and>
   (result = Some r \<and> is_incompetent r \<longrightarrow>
      counted_once Incompetent (score c) (score (update_score_and_notify_views result d c)) \<and>
      views (update_score_and_notify_views result d c) =
        views c @ [NotifyIncompetent d (exception r) (tests_run r)]) \<and>
   (result = Some r \<and> \<not> is_incompetent r \<and> is_survived r \<longrightarrow>
      counted_once Survived (score c) (score (update_score_and_notify_views result d c)) \<and>
      views (update_score_and_notify_views result d c) =
        views c @ [NotifySurvived d (tests_run r)]) \<and>
   (result = Some r \<and> \<not> is_incompetent r \<and> \<not> is_survived r \<longrightarrow>
      counted_once Killed (score c) (score (update_score_and_notify_views result d c)) \<and>
      views (update_score_and_notify_views result d c) =
        views c @ [NotifyKilled d (killer r) (exception_traceback r) (tests_run r)]) \<and>
   (counted_once k s s' \<and> counted_once k' s s' \<longrightarrow> k = k') \<and>
   all_mutants (score c) = sum_list (counters (score c)) \<and>
   all_mutants (score (fold (\<lambda>(r, d). update_score_and_notify_views r d) calls c)) =
     all_mutants (score c) + int (length calls) \<and>
   (mutate_module_loop cfg env tm td cov items c = (None, c') \<longrightarrow>
      all_mutants (score c') = all_mutants (score c) + int (length items)) \<and>
   (filtered_out (mutation_number cfg) (all_mutants (score c) + 1) \<longrightarrow>
      mutate_module_loop cfg env tm td cov [Inr (ms, a)] c =
        (None, c\<lparr>score := inc_incompetent (score c)\<rparr>) \<and>
      counted_once Incompetent (score c) (inc_incompetent (score c))) \<and>
   (\<not> filtered_out (mutation_number cfg) (all_mutants (score c) + 1) \<and>
    mutate_module_loop cfg env tm td cov [Inr (ms, a)] c = (None, c'') \<longrightarrow>
      (\<exists>cls n. counted_once cls (score c) (score c'') \<and> reports cls n \<and>
           views c'' = views c @ [NotifyMutation (all_mutants (score c) + 1) ms tm a, n]))"
proof (intro conjI impI)
  show "\<exists>cls n. counted_once cls (score c) (score (update_score_and_notify_views result d c)) \<and>
      reports cls n \<and> views (update_score_and_notify_views result d c) = views c @ [n]"
    by (rule update_score_linked)
next
  assume "result = None"
  from update_score_cases(1) [OF this, of d c]
  show "counted_once TimedOut (score c) (score (update_score_and_notify_views result d c))"
    and "views (update_score_and_notify_views result d c) = views c @ [NotifyTimeout d]"
    by (simp_all add: counted_once_simps)
next
  assume "result = Some r \<and> is_incompetent r"
  then have "result = Some r" "is_incompetent r" by simp_all
  from update_score_cases(2) [OF this, of d c]
  show "counted_once Incompetent (score c) (score (update_score_and_notify_views result d c))"
    and "views (update_score_and_notify_views result d c) =
      views c @ [NotifyIncompetent d (exception r) (tests_run r)]"
    by (simp_all add: counted_once_simps)
next
  assume "result = Some r \<and> \<not> is_incompetent r \<and> is_survived r"
  then have "result = Some r" "\<not> is_incompetent r" "is_survived r" by simp_all
  from update_score_cases(3) [OF this, of d c]
  show "counted_once Survived (score c) (score (update_score_and_notify_views result d c))"
    and "views (update_score_and_notify_views result d c) =
      views c @ [NotifySurvived d (tests_run r)]"
    by (simp_all add: counted_once_simps)
next
  assume "result = Some r \<and> \<not> is_incompetent r \<and> \<not> is_survived r"
  then have "result = Some r" "\<not> is_incompetent r" "\<not> is_survived r" by simp_all
  from update_score_cases(4) [OF this, of d c]
  show "counted_once Killed (score c) (score (update_score_and_notify_views result d c))"
    and "views (update_score_and_notify_views result d c) =
      views c @ [NotifyKilled d (killer r) (exception_traceback r) (tests_run r)]"
    by (simp_all add: counted_once_simps)
next
  assume "counted_once k s s' \<and> counted_once k' s s'"
  then show "k = k'" by (auto dest: counted_once_unique)
next
  show "all_mutants (score c) = sum_list (counters (score c))"
    by (simp add: score_defs)
next
  show "all_mutants (score (fold (\<lambda>(r, d). update_score_and_notify_views r d) calls c)) =
      all_mutants (score c) + int (length calls)"
    by (rule fold_update_all_mutants)
next
  assume "mutate_module_loop cfg env tm td cov items c = (None, c')"
  then show "all_mutants (score c') = all_mutants (score c) + int (length items)"
    by (rule mutate_module_loop_all_mutants)
next
  assume "filtered_out (mutation_number cfg) (all_mutants (score c) + 1)"
  then show "mutate_module_loop cfg env tm td cov [Inr (ms, a)] c =
      (None, c\<lparr>score := inc_incompetent (score c)\<rparr>)"
    by simp
next
  show "counted_once Incompetent (score c) (inc_incompetent (score c))"
    by (rule counted_once_simps)
next
  assume h: "\<not> filtered_out (mutation_number cfg) (all_mutants (score c) + 1) \<and>
    mutate_module_loop cfg env tm td cov [Inr (ms, a)] c = (None, c'')"
  show "\<exists>cls n. counted_once cls (score c) (score c'') \<and> reports cls n \<and>
      views c'' = views c @ [NotifyMutation (all_mutants (score c) + 1) ms tm a, n]"
    by (rule unfiltered_step [OF h [THEN conjunct1] h [THEN conjunct2]])
qed

theorem classification_counts_and_notifies_witness:
  "update_score_and_notify_views None 1 fresh_controller =
     \<lparr>score = inc_timeout MutationScore, views = [NotifyTimeout 1]\<rparr> \<and>
   update_score_and_notify_views (Some (example_result True False)) 1 fresh_controller =
     \<lparr>score = inc_incompetent MutationScore, views = [NotifyIncompetent 1 ''error'' 3]\<rparr> \<and>
   update_score_and_notify_views (Some (example_result False True)) 1 fresh_controller =
     \<lparr>score = inc_survived MutationScore, views = [NotifySurvived 1 3]\<rparr> \<and>
   update_score_and_notify_views (Some (example_result False False)) 1 fresh_controller =
     \<lparr>score = inc_killed MutationScore,
      views = [NotifyKilled 1 ''test_one'' ''traceback'' 3]\<rparr> \<and>
   counted_once TimedOut MutationScore (inc_timeout MutationScore) \<and>
   mutate_module_loop example_config example_env ''target'' 2 False
       [Inr ([1], 1), Inr ([2], 2), Inr ([3], 3)] fresh_controller =
     (None, \<lparr>score = \<lparr>killed_mutants = 0, timeout_mutants = 1, incompetent_mutants = 1,
                       survived_mutants = 1, covered_nodes = 0, all_nodes = 0\<rparr>,
             views = [NotifyMutation 1 [1] ''target'' 1, NotifyTimeout 1,
                      NotifyMutation 2 [2] ''target'' 2, NotifySurvived 1 3,
                      NotifyMutation 3 [3] ''target'' 3,
                      NotifyIncompetent 0 ''invalid syntax'' 0]\<rparr>) \<and>
   filtered_out (mutation_number filter_config) (all_mutants (score fresh_controller) + 1) \<and>
   mutate_module_loop filter_config example_env ''target'' 2 False [Inr ([1], 1)]
       fresh_controller =
     (None, fresh_controller\<lparr>score := inc_incompetent (score fresh_controller)\<rparr>) \<and>
   \<not> filtered_out (mutation_number example_config) (all_mutants (score fresh_controller) + 1) \<and>
   mutate_module_loop example_config example_env ''target'' 2 False [Inr ([2], 2)]
       fresh_controller =
     (None, \<lparr>score = inc_survived MutationScore,
             views = [NotifyMutation 1 [2] ''target'' 2, NotifySurvived 1 3]\<rparr>)"
  using
    classification_counts_and_notifies [where result = None and d = 1
      and c = fresh_controller and r = "example_result False False"
      and k = TimedOut and k' = TimedOut and s = MutationScore
      and s' = "inc_timeout MutationScore" and calls = "[(None, 1)]"
      and cfg = filter_config and env = example_env and tm = "''target''" and td = 2
      and cov = False and items = "[Inr ([1], 1)]"
      and c' = "fresh_controller\<lparr>score := inc_incompetent (score fresh_controller)\<rparr>"
      and ms = "[1]" and a = 1 and c'' = fresh_controller]
    classification_counts_and_notifies [where result = "Some (example_result True False)"
      and d = 1 and c = fresh_controller and r = "example_result True False"
      and k = TimedOut and k' = TimedOut and s = MutationScore
      and s' = "inc_timeout MutationScore" and calls = "[(None, 1)]"
      and cfg = example_config and env = example_env and tm = "''target''" and td = 2
      and cov = False and items = "[Inr ([2], 2)]"
      and c' = "\<lparr>score = inc_survived MutationScore,
                views = [NotifyMutation 1 [2] ''target'' 2, NotifySurvived 1 3]\<rparr>"
      and ms = "[2]" and a = 2
      and c'' = "\<lparr>score = inc_survived MutationScore,
                 views = [NotifyMutation 1 [2] ''target'' 2, NotifySurvived 1 3]\<rparr>"]
    classification_counts_and_notifies [where result = "Some (example_result False True)"
      and d = 1 and c = fresh_controller and r = "example_result False True"
      and k = TimedOut and k' = TimedOut and s = MutationScore
      and s' = "inc_timeout MutationScore" and calls = "[(None, 1)]"
      and cfg = example_config and env = example_env and tm = "''target''" and td = 2
      and cov = False and items = "[]" and c' = fresh_controller
      and ms = "[2]" and a = 2 and c'' = fresh_controller]
    classification_counts_and_notifies [where result = "Some (example_result False False)"
      and d = 1 and c = fresh_controller and r = "example_result False False"
      and k = TimedOut and k' = TimedOut and s = MutationScore
      and s' = "inc_timeout MutationScore" and calls = "[(None, 1)]"
      and cfg = example_config and env = example_env and tm = "''target''" and td = 2
      and cov = False and items = "[]" and c' = fresh_controller
      and ms = "[2]" and a = 2 and c'' = fresh_controller]
  by (simp add: example_defs controller_defs update_defs score_defs counted_once_def)

text \<open>
  Claim C2 as stated fails: with the filter set to mutant 2, the first mutant is
  counted as incompetent (so \<^verbatim>\<open>all_mutants\<close> is 1) although
  \<^verbatim>\<open>update_score_and_notify_views\<close> was not called and no notification was emitted.
\<close>

theorem skipped_mutant_counted_without_notification:
  "mutate_module_loop filter_config example_env ''target'' 2 False [Inr ([1], 1)]
       fresh_controller =
     (None, \<lparr>score = \<lparr>killed_mutants = 0, timeout_mutants = 0, incompetent_mutants = 1,
                       survived_mutants = 0, covered_nodes = 0, all_nodes = 0\<rparr>,
             views = []\<rparr>)"
  by (simp add: example_defs controller_defs score_defs)


text \<open>
  Claim C6. When \<^verbatim>\<open>mutation_number\<close> is set (to an integer that Python takes as true,
  that is, not 0) and differs from the ordinal of the mutant, which is
  \<^verbatim>\<open>all_mutants + 1\<close>, the loop goes on with the next mutant after adding one to the
  incompetent counter and doing nothing else: no notification is made and the result
  does not depend on the module builder or the test runner. The next ordinal is one
  more.
\<close>

theorem mutation_number_filter_skips:
  assumes "mutation_number cfg = Some k" and "k \<noteq> 0" and "k \<noteq> all_mutants (score c) + 1"
  shows "mutate_module_loop cfg env tm td cov (Inr (ms, a) # rest) c =
           mutate_module_loop cfg env tm td cov rest (c\<lparr>score := inc_incompetent (score c)\<rparr>) \<and>
         incompetent_mutants (score (c\<lparr>score := inc_incompetent (score c)\<rparr>)) =
           incompetent_mutants (score c) + 1 \<and>
         all_mutants (score (c\<lparr>score := inc_incompetent (score c)\<rparr>)) + 1 =
           (all_mutants (score c) + 1) + 1 \<and>
         views (c\<lparr>score := inc_incompetent (score c)\<rparr>) = views c"
  using assms by (simp add: filtered_out_def score_defs)

theorem mutation_number_filter_skips_witness:
  "mutation_number filter_config = Some 2 \<and> (2 :: int) \<noteq> 0 \<and>
   2 \<noteq> all_mutants (score fresh_controller) + 1 \<and>
   mutate_module_loop filter_config example_env ''target'' 2 False
       [Inr ([1], 1), Inr ([2], 2), Inr ([3], 3)] fresh_controller =
     (None, \<lparr>score = \<lparr>killed_mutants = 0, timeout_mutants = 0, incompetent_mutants = 2,
                       survived_mutants = 1, covered_nodes = 0, all_nodes = 0\<rparr>,
             views = [NotifyMutation 2 [2] ''target'' 2, NotifySurvived 1 3]\<rparr>)"
  using mutation_number_filter_skips [of filter_config 2 fresh_controller example_env
      "''target''" 2 False "[1]" 1 "[Inr ([2], 2), Inr ([3], 3)]"]
  by (simp add: example_defs controller_defs update_defs score_defs)




lemma mutate_module_loop_append:
  "mutate_module_loop cfg env tm td cov xs c = (None, c1) \<Longrightarrow>
   mutate_module_loop cfg env tm td cov (xs @ ys) c = mutate_module_loop cfg env tm td cov ys c1"
proof (induction xs arbitrary: c)
  case Nil
  then show ?case by simp
next
  case (Cons x xs)
  show ?case
  proof (cases x)
    case (Inl e)
    with Cons.prems show ?thesis by simp
  next
    case (Inr p)
    obtain ms a where p: "p = (ms, a)" by (cases p)
    from Cons.prems Cons.IH Inr p show ?thesis
      by (auto simp: Let_def split: prod.splits option.splits if_splits)
  qed
qed










lemma apply_mutations_loop_error:
  "apply_mutations_loop oo om g ap mu gens = Inl e \<Longrightarrow> e = AssertionError ''no mutations!''"
  by (induction g arbitrary: ap mu gens) (auto split: list.splits)

text \<open>
  Claim C5, as amended. If re-applying the operator of a mutation of a group yields
  nothing, \<^verbatim>\<open>HighOrderMutator.mutate\<close> raises the assertion error \<^verbatim>\<open>no mutations!\<close> at
  that group and yields nothing more. The loop of \<^verbatim>\<open>mutate_module\<close> ends with that
  exception and with the controller as the earlier mutants left it: the failing mutant
  changes no counter and causes no notification. \<^verbatim>\<open>run\<close> does not catch the
  exception; when the first group of the first target fails, \<^verbatim>\<open>run\<close> raises it with an
  all-zero score.
\<close>

theorem failed_reapplication_aborts_run:
  assumes "apply_mutations_loop operator_of operator_mutate g [] target_ast [] = Inl e"
  shows "e = AssertionError ''no mutations!'' \<and>
         hom_mutate_loop operator_of operator_mutate target_ast (g # gs) = [Inl e] \<and>
         (mutate_module_loop cfg env tm td cov earlier c = (None, c1) \<longrightarrow>
            mutate_module_loop cfg env tm td cov
              (earlier @ hom_mutate_loop operator_of operator_mutate target_ast (g # gs)) c =
              (Some e, c1)) \<and>
         (load_and_check_tests env = Inr (tms, td, n) \<and>
          target_loader_load env (map fst tms) = Loaded (tm, to_mutate) # rest \<and>
          \<not> mutate_covered cfg \<and>
          mutant_generator_mutate env (create_target_ast env tm) tm =
            hom_mutate_loop operator_of operator_mutate target_ast (g # gs) \<longrightarrow>
            run cfg env =
              (Raised e, Some MutationScore,
               [NotifyInitialize (target_names cfg) (test_names cfg), NotifyPassed tms n,
                NotifyStart]))"
proof -
  from assms have e: "e = AssertionError ''no mutations!''"
    by (rule apply_mutations_loop_error)
  from assms have h: "hom_mutate_loop operator_of operator_mutate target_ast (g # gs) = [Inl e]"
    by simp
  have "mutate_module_loop cfg env tm td cov earlier c = (None, c1) \<longrightarrow>
            mutate_module_loop cfg env tm td cov
              (earlier @ hom_mutate_loop operator_of operator_mutate target_ast (g # gs)) c =
              (Some e, c1)"
    by (simp add: h mutate_module_loop_append del: hom_mutate_loop.simps)
  moreover have "load_and_check_tests env = Inr (tms, td, n) \<and>
          target_loader_load env (map fst tms) = Loaded (tm, to_mutate) # rest \<and>
          \<not> mutate_covered cfg \<and>
          mutant_generator_mutate env (create_target_ast env tm) tm =
            hom_mutate_loop operator_of operator_mutate target_ast (g # gs) \<longrightarrow>
            run cfg env =
              (Raised e, Some MutationScore,
               [NotifyInitialize (target_names cfg) (test_names cfg), NotifyPassed tms n,
                NotifyStart])"
    by (simp add: h e run_def run_mutation_process_def mutate_module_def inject_coverage_def
        del: hom_mutate_loop.simps)
  ultimately show ?thesis using e h by blast
qed

theorem failed_reapplication_aborts_run_witness:
  "apply_mutations_loop (\<lambda>m. 0) failing_operator_mutate [1, 2] [] (0 :: nat) [] =
     Inl (AssertionError ''no mutations!'') \<and>
   run example_config failing_env =
     (Raised (AssertionError ''no mutations!''), Some MutationScore,
      [NotifyInitialize [''target''] [''test_target''],
       NotifyPassed [(''test_target'', [], 2)] 3, NotifyStart])"
proof -
  have a: "apply_mutations_loop (\<lambda>m. 0) failing_operator_mutate [1, 2] [] (0 :: nat) [] =
     Inl (AssertionError ''no mutations!'')"
    by (simp add: failing_operator_mutate_def)
  from failed_reapplication_aborts_run [OF a, of "[]" example_config failing_env "''target''" 2
      False "[]" fresh_controller fresh_controller "[(''test_target'', [], 2)]" 3 "[]" "[]"]
  show ?thesis
    by (simp add: a example_defs load_and_check_tests_def HighOrderMutator_mutate_def
        generate_all_mutations_def)
qed

text \<open>
  Claim C5 as stated fails: in this run the second mutation of the group is not found
  again; \<^verbatim>\<open>run\<close> ends with the assertion error, the incompetent counter is still 0 and
  no incompetent mutant was notified.
\<close>

theorem failed_reapplication_crashes_controller:
  "run example_config failing_env =
     (Raised (AssertionError ''no mutations!''),
      Some \<lparr>killed_mutants = 0, timeout_mutants = 0, incompetent_mutants = 0,
            survived_mutants = 0, covered_nodes = 0, all_nodes = 0\<rparr>,
      [NotifyInitialize [''target''] [''test_target''],
       NotifyPassed [(''test_target'', [], 2)] 3, NotifyStart])"
  by (simp add: example_defs controller_defs)


section \<open>Properties of the list methods\<close>

lemma list_pop_first:
  "list_pop r 0 s = (case s r of [] \<Rightarrow> Inl IndexError | x # xs \<Rightarrow> Inr (x, s(r := xs)))"
  by (simp add: list_pop_def Let_def split: list.splits)

lemma list_pop_last:
  "list_pop r (- 1) s =
     (if s r = [] then Inl IndexError else Inr (last (s r), s(r := butlast (s r))))"
proof (cases "s r = []")
  case True
  then show ?thesis by (simp add: list_pop_def)
next
  case False
  then have n: "nat (int (length (s r)) - 1) = length (s r) - 1" by simp
  from False have "length (s r) - 1 < length (s r)"
    by (simp add: Suc_le_eq)
  with False n show ?thesis
    by (simp add: list_pop_def Let_def last_conv_nth butlast_conv_take Suc_diff_1)
qed

lemma list_pop_error: "list_pop r i s = Inl e \<Longrightarrow> e = IndexError"
  by (auto simp: list_pop_def Let_def split: if_splits)

lemma list_remove_error: "list_remove r x s = Inl e \<Longrightarrow> e = ValueError"
  by (auto simp: list_remove_def split: if_splits)

lemma list_pop_takes_one:
  assumes "list_pop r i s = Inr (x, s')"
  shows "\<exists>ys. s' = s(r := ys) \<and> mset (s r) = add_mset x (mset ys)"
proof -
  define j where "j = (if i < 0 then i + int (length (s r)) else i)"
  from assms have j: "0 \<le> j" "j < int (length (s r))"
    and x: "x = s r ! nat j"
    and s': "s' = s(r := take (nat j) (s r) @ drop (Suc (nat j)) (s r))"
    by (auto simp: list_pop_def Let_def j_def split: if_splits)
  from j have lt: "nat j < length (s r)" by simp
  have "s r = take (nat j) (s r) @ s r ! nat j # drop (Suc (nat j)) (s r)"
    using lt by (simp add: id_take_nth_drop [symmetric])
  then have "mset (s r) = mset (take (nat j) (s r) @ s r ! nat j # drop (Suc (nat j)) (s r))"
    by simp
  then have "mset (s r) = add_mset x (mset (take (nat j) (s r) @ drop (Suc (nat j)) (s r)))"
    by (simp add: x)
  with s' show ?thesis by blast
qed

lemma list_pop_succeeds:
  "s r \<noteq> [] \<Longrightarrow> i = 0 \<or> i = - 1 \<Longrightarrow> \<exists>x s'. list_pop r i s = Inr (x, s')"
  by (auto simp: list_pop_first list_pop_last split: list.splits)

section \<open>Properties of the removal of conflicts\<close>

lemma remove_bad_inner_filter:
  "s av = filter (\<lambda>am. \<not> bad_pair ob allow m am) pre @ rest \<Longrightarrow>
   remove_bad_inner ob allow m av rest s =
     Inr (s(av := filter (\<lambda>am. \<not> bad_pair ob allow m am) (pre @ rest)))"
proof (induction rest arbitrary: pre s)
  case Nil
  then have "s(av := filter (\<lambda>am. \<not> bad_pair ob allow m am) pre) = s" by auto
  then show ?case by simp
next
  case (Cons am rest)
  let ?keep = "filter (\<lambda>am. \<not> bad_pair ob allow m am)"
  show ?case
  proof (cases "bad_pair ob allow m am")
    case True
    let ?t = "s(av := ?keep pre @ rest)"
    from True have "remove1 am (?keep pre @ am # rest) = ?keep pre @ rest"
      by (simp add: remove1_append)
    with Cons.prems have rem: "list_remove av am s = Inr ?t"
      by (simp add: list_remove_def)
    have "?t av = ?keep (pre @ [am]) @ rest"
      using True by simp
    then have "remove_bad_inner ob allow m av rest ?t =
        Inr (?t(av := ?keep ((pre @ [am]) @ rest)))"
      by (rule Cons.IH)
    also have "?t(av := ?keep ((pre @ [am]) @ rest)) = s(av := ?keep (pre @ am # rest))"
      by simp
    finally have ih: "remove_bad_inner ob allow m av rest ?t =
        Inr (s(av := ?keep (pre @ am # rest)))" .
    have "remove_bad_inner ob allow m av (am # rest) s = remove_bad_inner ob allow m av rest ?t"
      using True by (simp only: remove_bad_inner.simps if_True rem sum.case)
    with ih show ?thesis by (simp only:)
  next
    case False
    with Cons.prems have "s av = ?keep (pre @ [am]) @ rest" by simp
    then have "remove_bad_inner ob allow m av rest s = Inr (s(av := ?keep ((pre @ [am]) @ rest)))"
      by (rule Cons.IH)
    then have ih: "remove_bad_inner ob allow m av rest s = Inr (s(av := ?keep (pre @ am # rest)))"
      by simp
    have "remove_bad_inner ob allow m av (am # rest) s = remove_bad_inner ob allow m av rest s"
      using False by (simp only: remove_bad_inner.simps if_False)
    with ih show ?thesis by (simp only:)
  qed
qed

lemma remove_bad_outer_filter:
  "remove_bad_outer ob allow ms av s =
     Inr (s(av := filter (\<lambda>am. \<forall>m\<in>set ms. \<not> bad_pair ob allow m am) (s av)))"
proof (induction ms arbitrary: s)
  case Nil
  have "s(av := s av) = s" by auto
  then show ?case by simp
next
  case (Cons m ms)
  let ?one = "filter (\<lambda>am. \<not> bad_pair ob allow m am)"
  let ?others = "filter (\<lambda>am. \<forall>m\<in>set ms. \<not> bad_pair ob allow m am)"
  have "remove_bad_inner ob allow m av (s av) s = Inr (s(av := ?one (s av)))"
    using remove_bad_inner_filter [of s av ob allow m "[]" "s av"] by simp
  then have "remove_bad_outer ob allow (m # ms) av s =
      remove_bad_outer ob allow ms av (s(av := ?one (s av)))"
    by simp
  also have "\<dots> = Inr ((s(av := ?one (s av)))(av := ?others ((s(av := ?one (s av))) av)))"
    by (rule Cons.IH)
  also have "(s(av := ?one (s av)))(av := ?others ((s(av := ?one (s av))) av)) =
      s(av := filter (\<lambda>am. \<forall>m\<in>set (m # ms). \<not> bad_pair ob allow m am) (s av))"
    by (simp only: fun_upd_upd fun_upd_same filter_filter list.set ball_simps Un_iff
        insert_iff)
  finally show ?case .
qed

lemma remove_bad_mutations_filter:
  "remove_bad_mutations ob ta av allow s =
     Inr (s(av := filter (\<lambda>am. \<forall>m\<in>set (s ta). \<not> bad_pair ob allow m am) (s av)))"
  by (simp add: remove_bad_mutations_def remove_bad_outer_filter)

section \<open>Properties of the inner loops\<close>

declare each_choice_inner.simps [simp del]
declare first_to_last_inner.simps [simp del]
declare between_operators_inner.simps [simp del]

lemma list_pop_member:
  "list_pop r i s = Inr (x, s') \<Longrightarrow> x \<in> set (s r) \<and> set (s' r) \<subseteq> set (s r) \<and>
     length (s' r) < length (s r) \<and> (\<forall>q. q \<noteq> r \<longrightarrow> s' q = s q)"
proof -
  assume a: "list_pop r i s = Inr (x, s')"
  from list_pop_takes_one [OF a] obtain ys where
    s': "s' = s(r := ys)" and m: "mset (s r) = add_mset x (mset ys)" by blast
  from m have "set (s r) = insert x (set ys)"
    by (metis set_mset_add_mset_insert set_mset_mset)
  moreover from m have "length (s r) = Suc (length ys)"
    by (metis size_add_mset size_mset)
  ultimately show ?thesis using s' by auto
qed

lemma round_explicit:
  assumes "s1 = s(Available := ys)"
  shows "remove_bad_mutations ob ToApply Available allow
           ((list_append ToApply x s1)(Copy := copy)) =
         Inr (after_round ob allow x ys copy s)"
proof -
  have "(\<lambda>r. ((list_append ToApply x s1)(Copy := copy)) r) =
        (\<lambda>r. (s(Available := ys, ToApply := s ToApply @ [x], Copy := copy)) r)"
    by (rule ext) (simp add: assms list_append_def)
  then have e: "(list_append ToApply x s1)(Copy := copy) =
      s(Available := ys, ToApply := s ToApply @ [x], Copy := copy)" .
  show ?thesis
    unfolding e remove_bad_mutations_filter after_round_def
    by (rule arg_cong [where f = Inr], rule ext) simp
qed

lemma after_round_simps:
  "after_round ob allow x ys copy s Caller = s Caller"
  "after_round ob allow x ys copy s Copy = copy"
  "after_round ob allow x ys copy s ToApply = s ToApply @ [x]"
  "after_round ob allow x ys copy s Available =
     filter (\<lambda>am. \<forall>m\<in>set (s ToApply @ [x]). \<not> bad_pair ob allow m am) ys"
  by (simp_all add: after_round_def)

lemma after_round_shorter:
  "mset (s Available) = add_mset x (mset ys) \<Longrightarrow>
   length (after_round ob allow x ys copy s Available) < length (s Available)"
proof -
  assume "mset (s Available) = add_mset x (mset ys)"
  then have "length (s Available) = Suc (length ys)"
    by (metis size_add_mset size_mset)
  then show ?thesis by (simp add: after_round_simps less_Suc_eq_le)
qed

lemma after_round_invariant:
  assumes "group_invariant ob allow s" and "mset (s Available) = add_mset x (mset ys)"
  shows "group_invariant ob allow (after_round ob allow x ys copy s)"
proof -
  from assms(2) have x: "x \<in> set (s Available)"
    by (metis union_single_eq_member set_mset_mset)
  with assms(1) have "\<forall>m\<in>set (s ToApply). \<not> bad_pair ob allow m x"
    by (simp add: group_invariant_def)
  with assms(1) have "sorted_wrt (\<lambda>a b. \<not> bad_pair ob allow a b) (s ToApply @ [x])"
    by (simp add: group_invariant_def sorted_wrt_append)
  then show ?thesis
    by (simp add: group_invariant_def after_round_simps)
qed

lemma after_round_available:
  assumes "mset (s Available) \<subseteq># mset (s Copy)"
    and "mset (s Available) = add_mset x (mset ys)"
  shows "x \<in> set (s Copy) \<and>
         mset (after_round ob allow x ys (remove1 x (s Copy)) s Available) \<subseteq>#
         mset (after_round ob allow x ys (remove1 x (s Copy)) s Copy) \<and>
         mset (after_round ob allow x ys (remove1 x (s Copy)) s ToApply) +
         mset (after_round ob allow x ys (remove1 x (s Copy)) s Copy) =
         mset (s ToApply) + mset (s Copy)"
proof -
  from assms have sub: "add_mset x (mset ys) \<subseteq># mset (s Copy)" by simp
  then have x: "x \<in> set (s Copy)"
    by (simp add: insert_subset_eq_iff)
  from sub have "mset ys \<subseteq># mset (s Copy) - {#x#}"
    by (simp add: insert_subset_eq_iff)
  moreover have "mset (filter (\<lambda>am. \<forall>m\<in>set (s ToApply @ [x]). \<not> bad_pair ob allow m am) ys)
      \<subseteq># mset ys"
    by (simp add: multiset_filter_subset)
  ultimately have "mset (after_round ob allow x ys (remove1 x (s Copy)) s Available) \<subseteq>#
         mset (after_round ob allow x ys (remove1 x (s Copy)) s Copy)"
    by (simp only: after_round_simps mset_remove1)
  moreover from x have "mset (after_round ob allow x ys (remove1 x (s Copy)) s ToApply) +
         mset (after_round ob allow x ys (remove1 x (s Copy)) s Copy) =
         mset (s ToApply) + mset (s Copy)"
    by (simp add: after_round_simps)
  ultimately show ?thesis using x by blast
qed

lemma remove_after_append:
  "s1 = s(Available := ys) \<Longrightarrow>
   list_remove Copy x (list_append ToApply x s1) =
     (if x \<in> set (s Copy)
      then Inr ((list_append ToApply x s1)(Copy := remove1 x (s Copy)))
      else Inl ValueError)"
  by (simp add: list_remove_def list_append_def)

lemma each_choice_inner_done:
  "\<not> (int (length (s ToApply)) < order \<and> s Available \<noteq> []) \<Longrightarrow>
   each_choice_inner ob order s = Inr s"
  by (subst each_choice_inner.simps) auto

lemma each_choice_inner_round:
  assumes "int (length (s ToApply)) < order" and "s Available \<noteq> []"
  shows "\<exists>x ys. mset (s Available) = add_mset x (mset ys) \<and>
           each_choice_inner ob order s =
             (if x \<in> set (s Copy)
              then each_choice_inner ob order (after_round ob True x ys (remove1 x (s Copy)) s)
              else Inl ValueError)"
proof -
  from assms(2) obtain x s1 where pop: "list_pop Available 0 s = Inr (x, s1)"
    using list_pop_succeeds [of s Available 0] by blast
  from list_pop_takes_one [OF pop] obtain ys where
    s1: "s1 = s(Available := ys)" and m: "mset (s Available) = add_mset x (mset ys)" by blast
  have "each_choice_inner ob order s =
      (if x \<in> set (s Copy)
       then each_choice_inner ob order (after_round ob True x ys (remove1 x (s Copy)) s)
       else Inl ValueError)"
    by (subst each_choice_inner.simps)
      (simp add: assms pop remove_after_append [OF s1] round_explicit [OF s1])
  with m show ?thesis by blast
qed

lemma each_choice_inner_partial:
  "each_choice_inner ob order s = Inr s' \<Longrightarrow>
   s' Caller = s Caller \<and> (group_invariant ob True s \<longrightarrow> group_invariant ob True s')"
proof (induction "length (s Available)" arbitrary: s rule: less_induct)
  case less
  show ?case
  proof (cases "int (length (s ToApply)) < order \<and> s Available \<noteq> []")
    case False
    with less.prems show ?thesis by (simp add: each_choice_inner_done)
  next
    case True
    with each_choice_inner_round [of s order ob] obtain x ys where
      m: "mset (s Available) = add_mset x (mset ys)" and
      r: "each_choice_inner ob order s =
            (if x \<in> set (s Copy)
             then each_choice_inner ob order (after_round ob True x ys (remove1 x (s Copy)) s)
             else Inl ValueError)"
      by blast
    let ?t = "after_round ob True x ys (remove1 x (s Copy)) s"
    from r less.prems have run: "each_choice_inner ob order ?t = Inr s'"
      by (simp split: if_splits)
    have short: "length (?t Available) < length (s Available)"
      using m by (rule after_round_shorter)
    from less.hyps [OF short run]
    have "s' Caller = ?t Caller" and "group_invariant ob True ?t \<longrightarrow> group_invariant ob True s'"
      by simp_all
    moreover have "group_invariant ob True s \<longrightarrow> group_invariant ob True ?t"
      using m by (blast intro: after_round_invariant)
    ultimately show ?thesis by (simp add: after_round_simps)
  qed
qed

lemma each_choice_inner_total:
  assumes "mset (s Available) \<subseteq># mset (s Copy)"
  shows "\<exists>s'. each_choice_inner ob order s = Inr s' \<and>
           mset (s' ToApply) + mset (s' Copy) = mset (s ToApply) + mset (s Copy) \<and>
           length (s' Copy) \<le> length (s Copy) \<and>
           (int (length (s ToApply)) < order \<and> s Available \<noteq> [] \<longrightarrow>
              length (s' Copy) < length (s Copy))"
  using assms
proof (induction "length (s Available)" arbitrary: s rule: less_induct)
  case less
  show ?case
  proof (cases "int (length (s ToApply)) < order \<and> s Available \<noteq> []")
    case False
    then show ?thesis by (simp add: each_choice_inner_done)
  next
    case True
    with each_choice_inner_round [of s order ob] obtain x ys where
      m: "mset (s Available) = add_mset x (mset ys)" and
      r: "each_choice_inner ob order s =
            (if x \<in> set (s Copy)
             then each_choice_inner ob order (after_round ob True x ys (remove1 x (s Copy)) s)
             else Inl ValueError)"
      by blast
    let ?t = "after_round ob True x ys (remove1 x (s Copy)) s"
    have "x \<in> set (s Copy) \<and> mset (?t Available) \<subseteq># mset (?t Copy) \<and>
        mset (?t ToApply) + mset (?t Copy) = mset (s ToApply) + mset (s Copy)"
      using less.prems m by (rule after_round_available)
    then have facts: "mset (?t Available) \<subseteq># mset (?t Copy)" "x \<in> set (s Copy)"
        "mset (?t ToApply) + mset (?t Copy) = mset (s ToApply) + mset (s Copy)"
      by simp_all
    have short: "length (?t Available) < length (s Available)"
      using m by (rule after_round_shorter)
    from less.hyps [OF short facts(1)] obtain s' where
      run: "each_choice_inner ob order ?t = Inr s'" and
      ms: "mset (s' ToApply) + mset (s' Copy) = mset (?t ToApply) + mset (?t Copy)" and
      le: "length (s' Copy) \<le> length (?t Copy)"
      by blast
    from facts(2) have "0 < length (s Copy)"
      by (rule length_pos_if_in_set)
    with facts(2) have "length (?t Copy) < length (s Copy)"
      by (simp add: after_round_simps length_remove1)
    with le have "length (s' Copy) < length (s Copy)" by simp
    moreover from r facts(2) run have "each_choice_inner ob order s = Inr s'" by simp
    ultimately show ?thesis using ms facts(3) by simp
  qed
qed

lemma first_to_last_inner_done:
  "\<not> (int (length (s ToApply)) < order \<and> s Available \<noteq> []) \<Longrightarrow>
   first_to_last_inner ob order index s = Inr s"
  by (subst first_to_last_inner.simps) auto

lemma first_to_last_inner_round:
  assumes "int (length (s ToApply)) < order" and "s Available \<noteq> []"
  shows "(list_pop Available index s = Inl IndexError \<and>
          first_to_last_inner ob order index s = Inr s) \<or>
         (\<exists>x ys. mset (s Available) = add_mset x (mset ys) \<and>
           first_to_last_inner ob order index s =
             (if x \<in> set (s Copy)
              then first_to_last_inner ob order (if index = - 1 then 0 else - 1)
                     (after_round ob True x ys (remove1 x (s Copy)) s)
              else Inl ValueError))"
proof (cases "list_pop Available index s")
  case (Inl e)
  then have "e = IndexError" by (rule list_pop_error)
  with Inl have "first_to_last_inner ob order index s = Inr s"
    by (subst first_to_last_inner.simps) (simp add: assms)
  with Inl \<open>e = IndexError\<close> show ?thesis by simp
next
  case (Inr p)
  obtain x s1 where p: "p = (x, s1)" by (cases p)
  with Inr have pop: "list_pop Available index s = Inr (x, s1)" by simp
  from list_pop_takes_one [OF pop] obtain ys where
    s1: "s1 = s(Available := ys)" and m: "mset (s Available) = add_mset x (mset ys)" by blast
  have "first_to_last_inner ob order index s =
      (if x \<in> set (s Copy)
       then first_to_last_inner ob order (if index = - 1 then 0 else - 1)
              (after_round ob True x ys (remove1 x (s Copy)) s)
       else Inl ValueError)"
    by (subst first_to_last_inner.simps)
      (simp add: assms pop remove_after_append [OF s1] round_explicit [OF s1])
  with m show ?thesis by blast
qed

lemma first_to_last_inner_partial:
  "first_to_last_inner ob order index s = Inr s' \<Longrightarrow>
   s' Caller = s Caller \<and> (group_invariant ob True s \<longrightarrow> group_invariant ob True s')"
proof (induction "length (s Available)" arbitrary: s index rule: less_induct)
  case less
  show ?case
  proof (cases "int (length (s ToApply)) < order \<and> s Available \<noteq> []")
    case False
    with less.prems show ?thesis by (simp add: first_to_last_inner_done)
  next
    case True
    with first_to_last_inner_round [of s order index ob]
    consider "first_to_last_inner ob order index s = Inr s"
      | x ys where "mset (s Available) = add_mset x (mset ys)"
          "first_to_last_inner ob order index s =
            (if x \<in> set (s Copy)
             then first_to_last_inner ob order (if index = - 1 then 0 else - 1)
                    (after_round ob True x ys (remove1 x (s Copy)) s)
             else Inl ValueError)"
      by blast
    then show ?thesis
    proof cases
      case 1
      with less.prems show ?thesis by simp
    next
      case 2
      let ?t = "after_round ob True x ys (remove1 x (s Copy)) s"
      note m = 2(1)
      from 2(2) less.prems
      have run: "first_to_last_inner ob order (if index = - 1 then 0 else - 1) ?t = Inr s'"
        by (simp split: if_splits)
      have short: "length (?t Available) < length (s Available)"
        using m by (rule after_round_shorter)
      from less.hyps [OF short run]
      have "s' Caller = ?t Caller"
        and "group_invariant ob True ?t \<longrightarrow> group_invariant ob True s'"
        by simp_all
      moreover have "group_invariant ob True s \<longrightarrow> group_invariant ob True ?t"
        using m by (blast intro: after_round_invariant)
      ultimately show ?thesis by (simp add: after_round_simps)
    qed
  qed
qed

lemma first_to_last_inner_total:
  assumes "mset (s Available) \<subseteq># mset (s Copy)" and "index = 0 \<or> index = - 1"
  shows "\<exists>s'. first_to_last_inner ob order index s = Inr s' \<and>
           mset (s' ToApply) + mset (s' Copy) = mset (s ToApply) + mset (s Copy) \<and>
           length (s' Copy) \<le> length (s Copy) \<and>
           (int (length (s ToApply)) < order \<and> s Available \<noteq> [] \<longrightarrow>
              length (s' Copy) < length (s Copy))"
  using assms
proof (induction "length (s Available)" arbitrary: s index rule: less_induct)
  case less
  show ?case
  proof (cases "int (length (s ToApply)) < order \<and> s Available \<noteq> []")
    case False
    then show ?thesis by (simp add: first_to_last_inner_done)
  next
    case True
    from True less.prems(2) have "\<exists>x s'. list_pop Available index s = Inr (x, s')"
      by (intro list_pop_succeeds) simp_all
    with True first_to_last_inner_round [of s order index ob] obtain x ys where
      m: "mset (s Available) = add_mset x (mset ys)" and
      r: "first_to_last_inner ob order index s =
            (if x \<in> set (s Copy)
             then first_to_last_inner ob order (if index = - 1 then 0 else - 1)
                    (after_round ob True x ys (remove1 x (s Copy)) s)
             else Inl ValueError)"
      by auto
    let ?t = "after_round ob True x ys (remove1 x (s Copy)) s"
    have "x \<in> set (s Copy) \<and> mset (?t Available) \<subseteq># mset (?t Copy) \<and>
        mset (?t ToApply) + mset (?t Copy) = mset (s ToApply) + mset (s Copy)"
      using less.prems(1) m by (rule after_round_available)
    then have facts: "mset (?t Available) \<subseteq># mset (?t Copy)" "x \<in> set (s Copy)"
        "mset (?t ToApply) + mset (?t Copy) = mset (s ToApply) + mset (s Copy)"
      by simp_all
    have short: "length (?t Available) < length (s Available)"
      using m by (rule after_round_shorter)
    have idx: "(if index = - 1 then 0 else - 1) = (0 :: int) \<or>
        (if index = - 1 then 0 else - 1) = (- 1 :: int)"
      by simp
    from less.hyps [OF short facts(1) idx] obtain s' where
      run: "first_to_last_inner ob order (if index = - 1 then 0 else - 1) ?t = Inr s'" and
      ms: "mset (s' ToApply) + mset (s' Copy) = mset (?t ToApply) + mset (?t Copy)" and
      le: "length (s' Copy) \<le> length (?t Copy)"
      by blast
    from facts(2) have "0 < length (s Copy)"
      by (rule length_pos_if_in_set)
    with facts(2) have "length (?t Copy) < length (s Copy)"
      by (simp add: after_round_simps length_remove1)
    with le have "length (s' Copy) < length (s Copy)" by simp
    moreover from r facts(2) run have "first_to_last_inner ob order index s = Inr s'" by simp
    ultimately show ?thesis using ms facts(3) by simp
  qed
qed

lemma between_operators_inner_done:
  "\<not> (int (length (s ToApply)) < order \<and> s Available \<noteq> []) \<Longrightarrow>
   between_operators_inner ob order usage s = Inr (usage, s)"
  by (subst between_operators_inner.simps) auto

lemma between_operators_inner_round:
  assumes "int (length (s ToApply)) < order" and "s Available = x # ys"
  shows "between_operators_inner ob order usage s =
           (case usage x of
              None \<Rightarrow> Inl KeyError
            | Some k \<Rightarrow>
                if k = 0
                then (if x \<in> set (s Copy)
                      then between_operators_inner ob order (usage(x \<mapsto> Suc 0))
                             (after_round ob False x ys (remove1 x (s Copy)) s)
                      else Inl ValueError)
                else between_operators_inner ob order (usage(x \<mapsto> Suc k))
                       (after_round ob False x ys (s Copy) s))"
proof -
  define s1 where "s1 = s(Available := ys)"
  have pop: "list_pop Available 0 s = Inr (x, s1)"
    by (simp add: list_pop_first assms s1_def)
  have same: "list_append ToApply x s1 = (list_append ToApply x s1)(Copy := s Copy)"
    by (rule ext) (simp add: list_append_def s1_def)
  have keep: "remove_bad_mutations ob ToApply Available False (list_append ToApply x s1) =
      Inr (after_round ob False x ys (s Copy) s)"
    by (subst same) (rule round_explicit [OF s1_def])
  show ?thesis
    by (subst between_operators_inner.simps)
      (simp add: assms pop remove_after_append [OF s1_def] round_explicit [OF s1_def] keep
        split: option.splits)
qed

lemma between_operators_inner_partial:
  "between_operators_inner ob order usage s = Inr (usage', s') \<Longrightarrow>
   s' Caller = s Caller \<and> (group_invariant ob False s \<longrightarrow> group_invariant ob False s')"
proof (induction "length (s Available)" arbitrary: s usage rule: less_induct)
  case less
  show ?case
  proof (cases "int (length (s ToApply)) < order \<and> s Available \<noteq> []")
    case False
    with less.prems show ?thesis by (simp add: between_operators_inner_done)
  next
    case True
    then obtain x ys where av: "s Available = x # ys" by (cases "s Available") auto
    then have m: "mset (s Available) = add_mset x (mset ys)" by simp
    from True av have r: "between_operators_inner ob order usage s =
           (case usage x of
              None \<Rightarrow> Inl KeyError
            | Some k \<Rightarrow>
                if k = 0
                then (if x \<in> set (s Copy)
                      then between_operators_inner ob order (usage(x \<mapsto> Suc 0))
                             (after_round ob False x ys (remove1 x (s Copy)) s)
                      else Inl ValueError)
                else between_operators_inner ob order (usage(x \<mapsto> Suc k))
                       (after_round ob False x ys (s Copy) s))"
      by (intro between_operators_inner_round) simp_all
    from r less.prems obtain u copy where
      run: "between_operators_inner ob order u (after_round ob False x ys copy s) =
              Inr (usage', s')"
      by (auto split: option.splits if_splits)
    let ?t = "after_round ob False x ys copy s"
    have short: "length (?t Available) < length (s Available)"
      using m by (rule after_round_shorter)
    from less.hyps [OF short run]
    have "s' Caller = ?t Caller"
      and "group_invariant ob False ?t \<longrightarrow> group_invariant ob False s'"
      by simp_all
    moreover have "group_invariant ob False s \<longrightarrow> group_invariant ob False ?t"
      using m by (blast intro: after_round_invariant)
    ultimately show ?thesis by (simp add: after_round_simps)
  qed
qed

lemma between_operators_inner_total:
  assumes "usage_invariant usage s" and "set (s Available) \<subseteq> set (s Caller)"
  shows "\<exists>usage' s'. between_operators_inner ob order usage s = Inr (usage', s') \<and>
           usage_invariant usage' s' \<and>
           set (s Copy) \<union> set (s ToApply) \<subseteq> set (s' Copy) \<union> set (s' ToApply) \<and>
           set (s' ToApply) \<subseteq> set (s ToApply) \<union> set (s Caller) \<and>
           length (s' Copy) \<le> length (s Copy) \<and>
           (int (length (s ToApply)) < order \<and>
            (\<exists>x ys. s Available = x # ys \<and> usage x = Some 0) \<longrightarrow>
              length (s' Copy) < length (s Copy))"
  using assms
proof (induction "length (s Available)" arbitrary: s usage rule: less_induct)
  case less
  show ?case
  proof (cases "int (length (s ToApply)) < order \<and> s Available \<noteq> []")
    case False
    with less.prems(1) show ?thesis
      by (auto simp: between_operators_inner_done)
  next
    case True
    then obtain x ys where av: "s Available = x # ys" by (cases "s Available") auto
    then have m: "mset (s Available) = add_mset x (mset ys)" by simp
    from av less.prems(2) have xc: "x \<in> set (s Caller)" by simp
    with less.prems(1) obtain k where k: "usage x = Some k"
      by (auto simp: usage_invariant_def)
    define copy where "copy = (if k = 0 then remove1 x (s Copy) else s Copy)"
    define u where "u = usage(x \<mapsto> Suc k)"
    let ?t = "after_round ob False x ys copy s"
    from less.prems(1) xc k have mem: "k = 0 \<longrightarrow> x \<in> set (s Copy)"
      by (simp add: usage_invariant_def)
    from True av have "between_operators_inner ob order usage s =
           (case usage x of
              None \<Rightarrow> Inl KeyError
            | Some k \<Rightarrow>
                if k = 0
                then (if x \<in> set (s Copy)
                      then between_operators_inner ob order (usage(x \<mapsto> Suc 0))
                             (after_round ob False x ys (remove1 x (s Copy)) s)
                      else Inl ValueError)
                else between_operators_inner ob order (usage(x \<mapsto> Suc k))
                       (after_round ob False x ys (s Copy) s))"
      by (intro between_operators_inner_round) simp_all
    with k mem have r: "between_operators_inner ob order usage s =
        between_operators_inner ob order u ?t"
      by (auto simp: copy_def u_def)
    have inv: "usage_invariant u ?t"
      unfolding usage_invariant_def
    proof (intro conjI allI)
      from less.prems(1) show "\<forall>m\<in>set (?t Caller). u m \<noteq> None"
        by (simp add: usage_invariant_def after_round_simps u_def)
      from less.prems(1) show "distinct (?t Copy)"
        by (simp add: usage_invariant_def after_round_simps copy_def)
      fix m
      from less.prems(1) have d: "distinct (s Copy)"
        and c: "m \<in> set (s Copy) \<longleftrightarrow> m \<in> set (s Caller) \<and> usage m = Some 0"
        by (simp_all add: usage_invariant_def)
      show "m \<in> set (?t Copy) \<longleftrightarrow> m \<in> set (?t Caller) \<and> u m = Some 0"
      proof (cases "m = x")
        case True
        with d k mem c show ?thesis
          by (auto simp: after_round_simps copy_def u_def)
      next
        case False
        with d c show ?thesis
          by (auto simp: after_round_simps copy_def u_def)
      qed
    qed
    have sub: "set (?t Available) \<subseteq> set (?t Caller)"
      using less.prems(2) av by (auto simp: after_round_simps)
    have short: "length (?t Available) < length (s Available)"
      using m by (rule after_round_shorter)
    from less.hyps [OF short inv sub] obtain usage' s' where
      run: "between_operators_inner ob order u ?t = Inr (usage', s')" and
      inv': "usage_invariant usage' s'" and
      keep: "set (?t Copy) \<union> set (?t ToApply) \<subseteq> set (s' Copy) \<union> set (s' ToApply)" and
      from_caller: "set (s' ToApply) \<subseteq> set (?t ToApply) \<union> set (?t Caller)" and
      le: "length (s' Copy) \<le> length (?t Copy)"
      by blast
    have k1: "set (s Copy) \<union> set (s ToApply) \<subseteq> set (?t Copy) \<union> set (?t ToApply)"
      by (auto simp: after_round_simps copy_def)
    have k2: "set (?t ToApply) \<union> set (?t Caller) \<subseteq> set (s ToApply) \<union> set (s Caller)"
      using xc by (auto simp: after_round_simps)
    have le2: "length (?t Copy) \<le> length (s Copy)"
      by (simp add: after_round_simps copy_def length_remove1)
    have lt: "usage x = Some 0 \<longrightarrow> length (?t Copy) < length (s Copy)"
    proof
      assume "usage x = Some 0"
      with k have "k = 0" by simp
      with mem have "x \<in> set (s Copy)" by simp
      then have "0 < length (s Copy)" by (rule length_pos_if_in_set)
      with \<open>k = 0\<close> \<open>x \<in> set (s Copy)\<close> show "length (?t Copy) < length (s Copy)"
        by (simp add: after_round_simps copy_def length_remove1)
    qed
    from r run have "between_operators_inner ob order usage s = Inr (usage', s')" by simp
    moreover from keep k1 have "set (s Copy) \<union> set (s ToApply) \<subseteq> set (s' Copy) \<union> set (s' ToApply)"
      by blast
    moreover from from_caller k2 have "set (s' ToApply) \<subseteq> set (s ToApply) \<union> set (s Caller)"
      by blast
    moreover from le le2 have "length (s' Copy) \<le> length (s Copy)" by simp
    moreover from le lt av have "(\<exists>x ys. s Available = x # ys \<and> usage x = Some 0) \<longrightarrow>
        length (s' Copy) < length (s Copy)"
      by auto
    ultimately show ?thesis using inv' by blast
  qed
qed

section \<open>Properties of the generators\<close>

lemma descendant_listed:
  "descendant ob d a \<Longrightarrow> lists_descendants ob \<Longrightarrow> d \<in> set (children ob a)"
  by (induction rule: descendant.induct) (auto simp: lists_descendants_def)

lemma in_conflict_bad_pair:
  "lists_descendants ob \<Longrightarrow> in_conflict ob a b \<Longrightarrow> bad_pair ob allow a b"
  by (auto simp: in_conflict_def bad_pair_def dest: descendant_listed)

lemma group_conflict_free:
  assumes "sorted_wrt (\<lambda>a b. \<not> bad_pair ob allow a b) g" and "lists_descendants ob"
  shows "conflict_free ob g"
  using assms
  by (auto simp: conflict_free_def sorted_wrt_iff_nth_less dest: in_conflict_bad_pair)

lemma start_round_invariant:
  "group_invariant ob allow (list_copy Available r (list_new ToApply s))"
  "group_invariant ob allow (s(Available := xs, ToApply := []))"
  by (simp_all add: group_invariant_def list_copy_def list_new_def)

lemma each_choice_next_partial:
  assumes "each_choice_next ob order s = Inr (Some (g, s'))"
  shows "s' Caller = s Caller \<and> sorted_wrt (\<lambda>a b. \<not> bad_pair ob True a b) g"
proof -
  let ?t = "list_copy Available Copy (list_new ToApply s)"
  from assms have run: "each_choice_inner ob order ?t = Inr s'" and g: "g = s' ToApply"
    by (auto simp: each_choice_next_def split: if_splits sum.splits)
  from each_choice_inner_partial [OF run] start_round_invariant(1) [of ob True Copy s]
  have "s' Caller = ?t Caller" and "group_invariant ob True s'" by simp_all
  with g show ?thesis by (simp add: group_invariant_def list_copy_def list_new_def)
qed

lemma first_to_last_next_partial:
  assumes "first_to_last_next ob order s = Inr (Some (g, s'))"
  shows "s' Caller = s Caller \<and> sorted_wrt (\<lambda>a b. \<not> bad_pair ob True a b) g"
proof -
  let ?t = "list_copy Available Copy (list_new ToApply s)"
  from assms have run: "first_to_last_inner ob order 0 ?t = Inr s'" and g: "g = s' ToApply"
    by (auto simp: first_to_last_next_def split: if_splits sum.splits)
  from first_to_last_inner_partial [OF run] start_round_invariant(1) [of ob True Copy s]
  have "s' Caller = ?t Caller" and "group_invariant ob True s'" by simp_all
  with g show ?thesis by (simp add: group_invariant_def list_copy_def list_new_def)
qed

lemma bad_pair_allow: "bad_pair ob True a b \<Longrightarrow> bad_pair ob False a b"
  by (auto simp: bad_pair_def)

lemma between_operators_next_partial:
  assumes "between_operators_next ob order (usage, s) = Inr (Some (g, usage', s'))"
  shows "s' Caller = s Caller \<and> sorted_wrt (\<lambda>a b. \<not> bad_pair ob False a b) g"
proof -
  from assms obtain t where
    sort: "list_sort_by_usage usage Available (list_copy Available Caller (list_new ToApply s))
             = Inr t"
    and run: "between_operators_inner ob order usage t = Inr (usage', s')"
    and g: "g = s' ToApply"
    by (auto simp: between_operators_next_def split: if_splits sum.splits)
  from sort have t: "t Caller = s Caller" "t ToApply = []"
    by (auto simp: list_sort_by_usage_def list_copy_def list_new_def split: if_splits)
  then have "group_invariant ob False t" by (simp add: group_invariant_def)
  with between_operators_inner_partial [OF run]
  have "s' Caller = t Caller" and "group_invariant ob False s'" by simp_all
  with g t show ?thesis by (simp add: group_invariant_def)
qed

lemma consume_invariant:
  assumes step: "\<And>s g s'. nxt s = Inr (Some (g, s')) \<Longrightarrow> Q s \<Longrightarrow> Q s' \<and> P g"
  shows "consume fuel nxt s = Some (Inr (gs, s')) \<Longrightarrow> Q s \<Longrightarrow> Q s' \<and> (\<forall>g\<in>set gs. P g)"
proof (induction fuel arbitrary: s gs)
  case 0
  then show ?case by simp
next
  case (Suc fuel)
  show ?case
  proof (cases "nxt s")
    case (Inl e)
    with Suc.prems show ?thesis by simp
  next
    case (Inr r)
    show ?thesis
    proof (cases r)
      case None
      with Inr Suc.prems show ?thesis by simp
    next
      case (Some p)
      obtain g t where p: "p = (g, t)" by (cases p)
      with Inr Some have n: "nxt s = Inr (Some (g, t))" by simp
      with Suc.prems(1) obtain gs' where
        rest: "consume fuel nxt t = Some (Inr (gs', s'))" and gs: "gs = g # gs'"
        by (auto split: option.splits sum.splits)
      from step [OF n Suc.prems(2)] have "Q t" and "P g" by simp_all
      with Suc.IH [OF rest] gs show ?thesis by simp
    qed
  qed
qed

lemma each_choice_next_total:
  "(s Copy = [] \<longrightarrow> each_choice_next ob order s = Inr None) \<and>
   (s Copy \<noteq> [] \<and> 1 \<le> order \<longrightarrow>
      (\<exists>g s'. each_choice_next ob order s = Inr (Some (g, s')) \<and>
         mset g + mset (s' Copy) = mset (s Copy) \<and> length (s' Copy) < length (s Copy)))"
proof -
  let ?t = "list_copy Available Copy (list_new ToApply s)"
  have t: "?t Available = s Copy" "?t Copy = s Copy" "?t ToApply = []"
    by (simp_all add: list_copy_def list_new_def)
  then have "mset (?t Available) \<subseteq># mset (?t Copy)" by simp
  from each_choice_inner_total [of ?t ob order, OF this] obtain s' where
    run: "each_choice_inner ob order ?t = Inr s'" and
    ms: "mset (s' ToApply) + mset (s' Copy) = mset (?t ToApply) + mset (?t Copy)" and
    lt: "int (length (?t ToApply)) < order \<and> ?t Available \<noteq> [] \<longrightarrow>
           length (s' Copy) < length (?t Copy)"
    by blast
  from run ms lt t show ?thesis
    by (auto simp: each_choice_next_def)
qed

lemma first_to_last_next_total:
  "(s Copy = [] \<longrightarrow> first_to_last_next ob order s = Inr None) \<and>
   (s Copy \<noteq> [] \<and> 1 \<le> order \<longrightarrow>
      (\<exists>g s'. first_to_last_next ob order s = Inr (Some (g, s')) \<and>
         mset g + mset (s' Copy) = mset (s Copy) \<and> length (s' Copy) < length (s Copy)))"
proof -
  let ?t = "list_copy Available Copy (list_new ToApply s)"
  have t: "?t Available = s Copy" "?t Copy = s Copy" "?t ToApply = []"
    by (simp_all add: list_copy_def list_new_def)
  then have "mset (?t Available) \<subseteq># mset (?t Copy)" by simp
  from first_to_last_inner_total [of ?t 0 ob order, OF this] obtain s' where
    run: "first_to_last_inner ob order 0 ?t = Inr s'" and
    ms: "mset (s' ToApply) + mset (s' Copy) = mset (?t ToApply) + mset (?t Copy)" and
    lt: "int (length (?t ToApply)) < order \<and> ?t Available \<noteq> [] \<longrightarrow>
           length (s' Copy) < length (?t Copy)"
    by auto
  from run ms lt t show ?thesis
    by (auto simp: first_to_last_next_def)
qed

lemma consume_copy_total:
  assumes stop: "\<And>s. s Copy = [] \<Longrightarrow> nxt s = Inr None"
    and step: "\<And>s. s Copy \<noteq> [] \<Longrightarrow>
      \<exists>g s'. nxt s = Inr (Some (g, s')) \<and> mset g + mset (s' Copy) = mset (s Copy) \<and>
        length (s' Copy) < length (s Copy)"
  shows "length (s Copy) < fuel \<Longrightarrow>
         \<exists>gs s'. consume fuel nxt s = Some (Inr (gs, s')) \<and> mset (concat gs) = mset (s Copy)"
proof (induction fuel arbitrary: s)
  case 0
  then show ?case by simp
next
  case (Suc fuel)
  show ?case
  proof (cases "s Copy = []")
    case True
    then have "nxt s = Inr None" by (rule stop)
    with True show ?thesis by simp
  next
    case False
    then have "\<exists>g s'. nxt s = Inr (Some (g, s')) \<and> mset g + mset (s' Copy) = mset (s Copy) \<and>
        length (s' Copy) < length (s Copy)"
      by (rule step)
    then obtain g t where
      n: "nxt s = Inr (Some (g, t))" and
      ms: "mset g + mset (t Copy) = mset (s Copy)" and
      lt: "length (t Copy) < length (s Copy)"
      by blast
    from lt Suc.prems have "length (t Copy) < fuel" by simp
    from Suc.IH [of t, OF this] obtain gs s' where
      rest: "consume fuel nxt t = Some (Inr (gs, s'))" and
      c: "mset (concat gs) = mset (t Copy)"
      by blast
    from n rest have "consume (Suc fuel) nxt s = Some (Inr (g # gs, s'))" by simp
    moreover from c ms have "mset (concat (g # gs)) = mset (s Copy)" by simp
    ultimately show ?thesis by blast
  qed
qed

lemma sorted_head_least:
  assumes "sort_key f xs = y # ys" and "x \<in> set xs"
  shows "f y \<le> f x"
proof -
  have "sorted (map f (sort_key f xs))" by (rule sorted_sort_key)
  with assms(1) have "\<forall>z\<in>set ys. f y \<le> f z" by simp
  moreover from assms have "x \<in> set (y # ys)"
    by (metis set_sort)
  ultimately show ?thesis by auto
qed

lemma between_operators_next_total:
  assumes "usage_invariant usage s"
  shows "(s Copy = [] \<longrightarrow> between_operators_next ob order (usage, s) = Inr None) \<and>
         (s Copy \<noteq> [] \<and> 1 \<le> order \<longrightarrow>
            (\<exists>g usage' s'. between_operators_next ob order (usage, s) =
                 Inr (Some (g, usage', s')) \<and>
               usage_invariant usage' s' \<and> s' Caller = s Caller \<and>
               set (s Copy) \<subseteq> set (s' Copy) \<union> set g \<and> set g \<subseteq> set (s Caller) \<and>
               length (s' Copy) < length (s Copy)))"
proof (intro conjI impI)
  assume "s Copy = []"
  then show "between_operators_next ob order (usage, s) = Inr None"
    by (simp add: between_operators_next_def)
next
  assume a: "s Copy \<noteq> [] \<and> 1 \<le> order"
  define key where "key = (\<lambda>x. case usage x of Some k \<Rightarrow> k | None \<Rightarrow> 0)"
  define t where "t = s(ToApply := [], Available := sort_key key (s Caller))"
  from assms have dom: "\<forall>m\<in>set (s Caller). usage m \<noteq> None"
    by (simp add: usage_invariant_def)
  have t_eq: "(list_copy Available Caller (list_new ToApply s))
      (Available := sort_key key (s Caller)) = t"
    by (rule ext) (simp add: t_def list_copy_def list_new_def)
  from dom have sort:
    "list_sort_by_usage usage Available (list_copy Available Caller (list_new ToApply s)) = Inr t"
    by (simp add: list_sort_by_usage_def list_all_iff list_copy_def list_new_def key_def
        flip: t_eq)
  have t: "t Caller = s Caller" "t Copy = s Copy" "t ToApply = []"
    "t Available = sort_key key (s Caller)"
    by (simp_all add: t_def)
  from assms t have inv: "usage_invariant usage t"
    by (simp add: usage_invariant_def)
  from t have sub: "set (t Available) \<subseteq> set (t Caller)" by simp
  from a obtain m0 where m0: "m0 \<in> set (s Copy)" by (cases "s Copy") auto
  with assms have m0c: "m0 \<in> set (s Caller)" and m0u: "usage m0 = Some 0"
    by (simp_all add: usage_invariant_def)
  from m0c have "sort_key key (s Caller) \<noteq> []"
    by (metis empty_iff list.set(1) set_sort)
  then obtain x ys where xs: "sort_key key (s Caller) = x # ys"
    by (cases "sort_key key (s Caller)") auto
  from sorted_head_least [OF xs m0c] m0u have "key x = 0" by (simp add: key_def)
  moreover have "x \<in> set (s Caller)"
    by (metis xs list.set_intros(1) set_sort)
  ultimately have xu: "usage x = Some 0"
    using dom by (auto simp: key_def split: option.splits)
  from between_operators_inner_total [OF inv sub, of ob order] obtain usage' s' where
    run: "between_operators_inner ob order usage t = Inr (usage', s')" and
    inv': "usage_invariant usage' s'" and
    keep: "set (t Copy) \<union> set (t ToApply) \<subseteq> set (s' Copy) \<union> set (s' ToApply)" and
    from_caller: "set (s' ToApply) \<subseteq> set (t ToApply) \<union> set (t Caller)" and
    lt: "int (length (t ToApply)) < order \<and>
         (\<exists>x ys. t Available = x # ys \<and> usage x = Some 0) \<longrightarrow>
           length (s' Copy) < length (t Copy)"
    by blast
  from between_operators_inner_partial [OF run] t have c: "s' Caller = s Caller" by simp
  from lt a t xs xu have "length (s' Copy) < length (s Copy)" by simp
  moreover from a sort run
  have "between_operators_next ob order (usage, s) = Inr (Some (s' ToApply, usage', s'))"
    by (simp add: between_operators_next_def)
  ultimately show "\<exists>g usage' s'. between_operators_next ob order (usage, s) =
        Inr (Some (g, usage', s')) \<and>
      usage_invariant usage' s' \<and> s' Caller = s Caller \<and>
      set (s Copy) \<subseteq> set (s' Copy) \<union> set g \<and> set g \<subseteq> set (s Caller) \<and>
      length (s' Copy) < length (s Copy)"
    using inv' c keep from_caller t by auto
qed

lemma between_operators_consume_total:
  assumes "1 \<le> order"
  shows "usage_invariant usage s \<Longrightarrow> length (s Copy) < fuel \<Longrightarrow>
         \<exists>gs usage' s'. consume fuel (between_operators_next ob order) (usage, s) =
             Some (Inr (gs, usage', s')) \<and>
           usage_invariant usage' s' \<and> s' Copy = [] \<and> s' Caller = s Caller \<and>
           set (s Copy) \<subseteq> set (concat gs) \<and> set (concat gs) \<subseteq> set (s Caller)"
proof (induction fuel arbitrary: s usage)
  case 0
  then show ?case by simp
next
  case (Suc fuel)
  note total = between_operators_next_total [OF Suc.prems(1), of ob order]
  show ?case
  proof (cases "s Copy = []")
    case True
    with total Suc.prems(1) show ?thesis by simp
  next
    case False
    with total assms obtain g u t where
      n: "between_operators_next ob order (usage, s) = Inr (Some (g, u, t))" and
      inv: "usage_invariant u t" and c: "t Caller = s Caller" and
      keep: "set (s Copy) \<subseteq> set (t Copy) \<union> set g" and g: "set g \<subseteq> set (s Caller)" and
      lt: "length (t Copy) < length (s Copy)"
      by blast
    from lt Suc.prems(2) have "length (t Copy) < fuel" by simp
    from Suc.IH [OF inv this] obtain gs usage' s' where
      rest: "consume fuel (between_operators_next ob order) (u, t) =
               Some (Inr (gs, usage', s'))" and
      inv': "usage_invariant usage' s'" and e: "s' Copy = []" and c': "s' Caller = t Caller" and
      k: "set (t Copy) \<subseteq> set (concat gs)" and k': "set (concat gs) \<subseteq> set (t Caller)"
      by blast
    from n rest have "consume (Suc fuel) (between_operators_next ob order) (usage, s) =
        Some (Inr (g # gs, usage', s'))"
      by simp
    moreover from keep k have "set (s Copy) \<subseteq> set (concat (g # gs))" by auto
    moreover from g k' c have "set (concat (g # gs)) \<subseteq> set (s Caller)" by auto
    ultimately show ?thesis using inv' e c c' by auto
  qed
qed

lemma consume_groups_cong:
  "nxt s = nxt t \<Longrightarrow> groups_of (consume fuel nxt s) = groups_of (consume fuel nxt t)"
  by (cases fuel) (auto simp: groups_of_def split: sum.splits option.splits)

lemma each_choice_next_cong:
  "s Copy = t Copy \<Longrightarrow> s Caller = t Caller \<Longrightarrow>
   each_choice_next ob order s = each_choice_next ob order t"
proof -
  assume a: "s Copy = t Copy" "s Caller = t Caller"
  have "list_copy Available Copy (list_new ToApply s) =
        list_copy Available Copy (list_new ToApply t)"
  proof (rule ext)
    fix r show "list_copy Available Copy (list_new ToApply s) r =
        list_copy Available Copy (list_new ToApply t) r"
      using a by (cases r) (simp_all add: list_copy_def list_new_def)
  qed
  with a show ?thesis by (simp add: each_choice_next_def)
qed

lemma first_to_last_next_cong:
  "s Copy = t Copy \<Longrightarrow> s Caller = t Caller \<Longrightarrow>
   first_to_last_next ob order s = first_to_last_next ob order t"
proof -
  assume a: "s Copy = t Copy" "s Caller = t Caller"
  have "list_copy Available Copy (list_new ToApply s) =
        list_copy Available Copy (list_new ToApply t)"
  proof (rule ext)
    fix r show "list_copy Available Copy (list_new ToApply s) r =
        list_copy Available Copy (list_new ToApply t) r"
      using a by (cases r) (simp_all add: list_copy_def list_new_def)
  qed
  with a show ?thesis by (simp add: first_to_last_next_def)
qed

lemma generate_partial:
  assumes step: "\<And>t g t'. nxt t = Inr (Some (g, t')) \<Longrightarrow>
             t' Caller = t Caller \<and> sorted_wrt (\<lambda>a b. \<not> bad_pair ob allow a b) g"
    and run: "consume fuel nxt s = Some (Inr (gs, s'))"
  shows "s' Caller = s Caller \<and> (\<forall>g\<in>set gs. sorted_wrt (\<lambda>a b. \<not> bad_pair ob allow a b) g)"
proof (rule consume_invariant [where Q = "\<lambda>t. t Caller = s Caller" and
      P = "sorted_wrt (\<lambda>a b. \<not> bad_pair ob allow a b)" and nxt = nxt and s = s and
      fuel = fuel and gs = gs and s' = s'])
  fix t g t'
  assume "nxt t = Inr (Some (g, t'))" and "t Caller = s Caller"
  with step [of t g t']
  show "t' Caller = s Caller \<and> sorted_wrt (\<lambda>a b. \<not> bad_pair ob allow a b) g" by simp
next
  show "consume fuel nxt s = Some (Inr (gs, s'))" by (rule run)
next
  show "s Caller = s Caller" ..
qed

lemma each_choice_consume_partial:
  assumes "consume fuel (each_choice_next ob order) s = Some (Inr (gs, s'))"
  shows "s' Caller = s Caller \<and> (\<forall>g\<in>set gs. sorted_wrt (\<lambda>a b. \<not> bad_pair ob True a b) g)"
proof (rule generate_partial [where nxt = "each_choice_next ob order" and fuel = fuel])
  fix t g t'
  assume "each_choice_next ob order t = Inr (Some (g, t'))"
  then show "t' Caller = t Caller \<and> sorted_wrt (\<lambda>a b. \<not> bad_pair ob True a b) g"
    by (rule each_choice_next_partial)
next
  show "consume fuel (each_choice_next ob order) s = Some (Inr (gs, s'))" by (rule assms)
qed

lemma first_to_last_consume_partial:
  assumes "consume fuel (first_to_last_next ob order) s = Some (Inr (gs, s'))"
  shows "s' Caller = s Caller \<and> (\<forall>g\<in>set gs. sorted_wrt (\<lambda>a b. \<not> bad_pair ob True a b) g)"
proof (rule generate_partial [where nxt = "first_to_last_next ob order" and fuel = fuel])
  fix t g t'
  assume "first_to_last_next ob order t = Inr (Some (g, t'))"
  then show "t' Caller = t Caller \<and> sorted_wrt (\<lambda>a b. \<not> bad_pair ob True a b) g"
    by (rule first_to_last_next_partial)
next
  show "consume fuel (first_to_last_next ob order) s = Some (Inr (gs, s'))" by (rule assms)
qed

lemma between_operators_consume_partial:
  assumes run: "consume fuel (between_operators_next ob order) (usage, s) =
             Some (Inr (gs, usage', s'))"
  shows "s' Caller = s Caller \<and> (\<forall>g\<in>set gs. sorted_wrt (\<lambda>a b. \<not> bad_pair ob False a b) g)"
proof -
  have "snd (usage', s') Caller = s Caller \<and>
      (\<forall>g\<in>set gs. sorted_wrt (\<lambda>a b. \<not> bad_pair ob False a b) g)"
  proof (rule consume_invariant [where Q = "\<lambda>st. snd st Caller = s Caller" and
      P = "sorted_wrt (\<lambda>a b. \<not> bad_pair ob False a b)" and
      nxt = "between_operators_next ob order" and s = "(usage, s)" and fuel = fuel])
    fix st g st'
    assume n: "between_operators_next ob order st = Inr (Some (g, st'))"
      and c: "snd st Caller = s Caller"
    obtain u t where st: "st = (u, t)" by (cases st)
    obtain u' t' where st': "st' = (u', t')" by (cases st')
    from between_operators_next_partial [of ob order u t g u' t'] n c st st'
    show "snd st' Caller = s Caller \<and> sorted_wrt (\<lambda>a b. \<not> bad_pair ob False a b) g"
      by simp
  next
    show "consume fuel (between_operators_next ob order) (usage, s) =
        Some (Inr (gs, usage', s'))" by (rule run)
  next
    show "snd (usage, s) Caller = s Caller" by simp
  qed
  then show ?thesis by simp
qed

lemma start_simps:
  "list_copy Copy Caller s Caller = s Caller"
  "list_copy Copy Caller s Copy = s Caller"
  "snd (between_operators_start s) Caller = s Caller"
  "snd (between_operators_start s) Copy = s Caller"
  by (simp_all add: list_copy_def between_operators_start_def)

lemma between_operators_start_invariant:
  "distinct (s Caller) \<Longrightarrow>
   usage_invariant (fst (between_operators_start s)) (snd (between_operators_start s))"
  by (simp add: usage_invariant_def between_operators_start_def list_copy_def)

section \<open>The claims about the strategies\<close>

text \<open>
  Claim C3. Let the attribute \<^verbatim>\<open>children\<close> of a node list all of its descendants (with
  the children of a node it lists their children). Then a group that the generator of
  Each-Choice, of First-to-Last (Random runs the generator of Each-Choice on the
  shuffled copy) or of Between-Operators yields holds no two mutations in conflict: no
  two have the same node, and the node of none is a descendant of the node of another.
  The same holds of every group of a sequence consumed to its end.
\<close>

theorem groups_conflict_free:
  assumes "lists_descendants ob"
  shows "(each_choice_next ob order s = Inr (Some (g, s')) \<longrightarrow> conflict_free ob g) \<and>
         (first_to_last_next ob order s = Inr (Some (g, s')) \<longrightarrow> conflict_free ob g) \<and>
         (between_operators_next ob order (usage, s) = Inr (Some (g, usage', s')) \<longrightarrow>
            conflict_free ob g) \<and>
         (each_choice_generate fuel ob order s = Some (Inr (gs, s')) \<longrightarrow>
            (\<forall>g\<in>set gs. conflict_free ob g)) \<and>
         (first_to_last_generate fuel ob order s = Some (Inr (gs, s')) \<longrightarrow>
            (\<forall>g\<in>set gs. conflict_free ob g)) \<and>
         (random_generate fuel ob shuffler order s = Some (Inr (gs, s')) \<longrightarrow>
            (\<forall>g\<in>set gs. conflict_free ob g)) \<and>
         (between_operators_generate fuel ob order s = Some (Inr (gs, usage', s')) \<longrightarrow>
            (\<forall>g\<in>set gs. conflict_free ob g))"
proof -
  have free: "conflict_free ob g" if "sorted_wrt (\<lambda>a b. \<not> bad_pair ob allow a b) g"
    for allow g
    using that assms by (rule group_conflict_free)
  have "each_choice_next ob order s = Inr (Some (g, s')) \<longrightarrow> conflict_free ob g"
    using each_choice_next_partial [of ob order s g s'] by (blast intro: free)
  moreover
  have "first_to_last_next ob order s = Inr (Some (g, s')) \<longrightarrow> conflict_free ob g"
    using first_to_last_next_partial [of ob order s g s'] by (blast intro: free)
  moreover
  have "between_operators_next ob order (usage, s) = Inr (Some (g, usage', s')) \<longrightarrow>
      conflict_free ob g"
    using between_operators_next_partial [of ob order usage s g usage' s']
    by (blast intro: free)
  moreover
  have "each_choice_generate fuel ob order s = Some (Inr (gs, s')) \<longrightarrow>
      (\<forall>g\<in>set gs. conflict_free ob g)"
    unfolding each_choice_generate_def
    using each_choice_consume_partial [of fuel ob order "list_copy Copy Caller s" gs s']
    by (blast intro: free)
  moreover
  have "first_to_last_generate fuel ob order s = Some (Inr (gs, s')) \<longrightarrow>
      (\<forall>g\<in>set gs. conflict_free ob g)"
    unfolding first_to_last_generate_def
    using first_to_last_consume_partial [of fuel ob order "list_copy Copy Caller s" gs s']
    by (blast intro: free)
  moreover
  have "random_generate fuel ob shuffler order s = Some (Inr (gs, s')) \<longrightarrow>
      (\<forall>g\<in>set gs. conflict_free ob g)"
    unfolding random_generate_def
    using each_choice_consume_partial [of fuel ob order
        "let s1 = list_copy Copy Caller s in s1(Copy := shuffler (s1 Copy))" gs s']
    by (blast intro: free)
  moreover
  have "between_operators_generate fuel ob order s = Some (Inr (gs, usage', s')) \<longrightarrow>
      (\<forall>g\<in>set gs. conflict_free ob g)"
    unfolding between_operators_generate_def
    using between_operators_consume_partial [of fuel ob order
        "fst (between_operators_start s)" "snd (between_operators_start s)" gs usage' s']
    by (auto intro: free)
  ultimately show ?thesis by blast
qed

lemma each_choice_consume_total:
  assumes "1 \<le> order" and "length (s Copy) < fuel"
  shows "\<exists>gs s'. consume fuel (each_choice_next ob order) s = Some (Inr (gs, s')) \<and>
           mset (concat gs) = mset (s Copy)"
proof (rule consume_copy_total [where nxt = "each_choice_next ob order"])
  fix t :: "'a store"
  assume "t Copy = []"
  then show "each_choice_next ob order t = Inr None"
    using each_choice_next_total [of t ob order] by simp
next
  fix t :: "'a store"
  assume "t Copy \<noteq> []"
  with assms(1) show "\<exists>g s'. each_choice_next ob order t = Inr (Some (g, s')) \<and>
      mset g + mset (s' Copy) = mset (t Copy) \<and> length (s' Copy) < length (t Copy)"
    using each_choice_next_total [of t ob order] by simp
next
  show "length (s Copy) < fuel" by (rule assms(2))
qed

lemma first_to_last_consume_total:
  assumes "1 \<le> order" and "length (s Copy) < fuel"
  shows "\<exists>gs s'. consume fuel (first_to_last_next ob order) s = Some (Inr (gs, s')) \<and>
           mset (concat gs) = mset (s Copy)"
proof (rule consume_copy_total [where nxt = "first_to_last_next ob order"])
  fix t :: "'a store"
  assume "t Copy = []"
  then show "first_to_last_next ob order t = Inr None"
    using first_to_last_next_total [of t ob order] by simp
next
  fix t :: "'a store"
  assume "t Copy \<noteq> []"
  with assms(1) show "\<exists>g s'. first_to_last_next ob order t = Inr (Some (g, s')) \<and>
      mset g + mset (s' Copy) = mset (t Copy) \<and> length (s' Copy) < length (t Copy)"
    using first_to_last_next_total [of t ob order] by simp
next
  show "length (s Copy) < fuel" by (rule assms(2))
qed

lemma distinct_concat_from_mset:
  "mset (concat gs) = mset xs \<Longrightarrow> distinct xs \<Longrightarrow> distinct (concat gs)"
  by (metis mset_eq_imp_distinct_iff)

text \<open>
  Claim C4. Let the order be at least 1 and let the consumer take more groups than
  the list has mutations. Then First-to-Last and Each-Choice end, and the groups
  yielded hold the mutations of the input list, each as often as the list holds it:
  none is dropped, and when the mutations of the list are distinct each is in exactly
  one group. The same holds of Random when the shuffler permutes the list. When
  the mutations of the list are distinct, Between-Operators ends, the mutations in
  its groups are those of the list and every mutation of the list has a usage
  counter of at least 1 in the end.
\<close>

theorem groups_cover_input:
  assumes "1 \<le> order" and "length (s Caller) < fuel"
  shows "(\<exists>gs s'. each_choice_generate fuel ob order s = Some (Inr (gs, s')) \<and>
            mset (concat gs) = mset (s Caller) \<and>
            (distinct (s Caller) \<longrightarrow> distinct (concat gs))) \<and>
         (\<exists>gs s'. first_to_last_generate fuel ob order s = Some (Inr (gs, s')) \<and>
            mset (concat gs) = mset (s Caller) \<and>
            (distinct (s Caller) \<longrightarrow> distinct (concat gs))) \<and>
         (mset (shuffler (s Caller)) = mset (s Caller) \<longrightarrow>
            (\<exists>gs s'. random_generate fuel ob shuffler order s = Some (Inr (gs, s')) \<and>
               mset (concat gs) = mset (s Caller) \<and>
               (distinct (s Caller) \<longrightarrow> distinct (concat gs)))) \<and>
         (distinct (s Caller) \<longrightarrow>
            (\<exists>gs usage s'. between_operators_generate fuel ob order s =
                 Some (Inr (gs, usage, s')) \<and>
               set (concat gs) = set (s Caller) \<and>
               (\<forall>m\<in>set (s Caller). \<exists>k. usage m = Some k \<and> 1 \<le> k)))"
proof (intro conjI impI)
  let ?t = "list_copy Copy Caller s"
  from assms(2) have "length (?t Copy) < fuel" by (simp add: start_simps)
  from each_choice_consume_total [where s = ?t and ob = ob, OF assms(1) this]
  show "\<exists>gs s'. each_choice_generate fuel ob order s = Some (Inr (gs, s')) \<and>
      mset (concat gs) = mset (s Caller) \<and> (distinct (s Caller) \<longrightarrow> distinct (concat gs))"
    by (auto simp: each_choice_generate_def start_simps dest: distinct_concat_from_mset)
next
  let ?t = "list_copy Copy Caller s"
  from assms(2) have "length (?t Copy) < fuel" by (simp add: start_simps)
  from first_to_last_consume_total [where s = ?t and ob = ob, OF assms(1) this]
  show "\<exists>gs s'. first_to_last_generate fuel ob order s = Some (Inr (gs, s')) \<and>
      mset (concat gs) = mset (s Caller) \<and> (distinct (s Caller) \<longrightarrow> distinct (concat gs))"
    by (auto simp: first_to_last_generate_def start_simps dest: distinct_concat_from_mset)
next
  assume perm: "mset (shuffler (s Caller)) = mset (s Caller)"
  let ?t = "(list_copy Copy Caller s)(Copy := shuffler (s Caller))"
  from perm have "length (shuffler (s Caller)) = length (s Caller)"
    by (rule mset_eq_length)
  with assms(2) have "length (?t Copy) < fuel" by simp
  from each_choice_consume_total [where s = ?t and ob = ob, OF assms(1) this] perm
  show "\<exists>gs s'. random_generate fuel ob shuffler order s = Some (Inr (gs, s')) \<and>
      mset (concat gs) = mset (s Caller) \<and> (distinct (s Caller) \<longrightarrow> distinct (concat gs))"
    by (auto simp: random_generate_def start_simps Let_def dest: distinct_concat_from_mset)
next
  assume d: "distinct (s Caller)"
  let ?u = "fst (between_operators_start s)" and ?t = "snd (between_operators_start s)"
  from assms(2) have "length (?t Copy) < fuel" by (simp add: start_simps)
  from between_operators_consume_total
    [OF assms(1) between_operators_start_invariant [of s, OF d] this, of ob]
  obtain gs usage' s' where
    run: "consume fuel (between_operators_next ob order) (?u, ?t) = Some (Inr (gs, usage', s'))"
    and inv: "usage_invariant usage' s'" and e: "s' Copy = []" and c: "s' Caller = ?t Caller"
    and sub: "set (?t Copy) \<subseteq> set (concat gs)" "set (concat gs) \<subseteq> set (?t Caller)"
    by blast
  have "\<forall>m\<in>set (s Caller). \<exists>k. usage' m = Some k \<and> 1 \<le> k"
  proof
    fix m
    assume m: "m \<in> set (s Caller)"
    with inv c obtain k where k: "usage' m = Some k"
      by (auto simp: usage_invariant_def start_simps)
    from inv e have "\<not> (m \<in> set (s' Caller) \<and> usage' m = Some 0)"
      by (simp add: usage_invariant_def)
    with m c k have "k \<noteq> 0" by (simp add: start_simps)
    with k show "\<exists>k. usage' m = Some k \<and> 1 \<le> k" by simp
  qed
  with run sub
  show "\<exists>gs usage s'. between_operators_generate fuel ob order s = Some (Inr (gs, usage, s')) \<and>
      set (concat gs) = set (s Caller) \<and>
      (\<forall>m\<in>set (s Caller). \<exists>k. usage m = Some k \<and> 1 \<le> k)"
    by (auto simp: between_operators_generate_def start_simps)
qed

text \<open>
  Claim C9. Two runs of Each-Choice, or of First-to-Last, on lists with the same
  mutations in the same order yield the same groups in the same order, end with the
  same exception or both go on beyond the same number of groups, whatever else the
  two stores hold. The same is true of two runs of Random whose shufflers leave the
  same list.
\<close>

theorem strategies_deterministic:
  assumes "s1 Caller = s2 Caller"
  shows "groups_of (each_choice_generate fuel ob order s1) =
           groups_of (each_choice_generate fuel ob order s2) \<and>
         groups_of (first_to_last_generate fuel ob order s1) =
           groups_of (first_to_last_generate fuel ob order s2) \<and>
         (shuffler1 (s1 Caller) = shuffler2 (s2 Caller) \<longrightarrow>
            groups_of (random_generate fuel ob shuffler1 order s1) =
              groups_of (random_generate fuel ob shuffler2 order s2))"
proof (intro conjI impI)
  from assms have "each_choice_next ob order (list_copy Copy Caller s1) =
      each_choice_next ob order (list_copy Copy Caller s2)"
    by (intro each_choice_next_cong) (simp_all add: start_simps)
  then show "groups_of (each_choice_generate fuel ob order s1) =
      groups_of (each_choice_generate fuel ob order s2)"
    unfolding each_choice_generate_def by (rule consume_groups_cong)
next
  from assms have "first_to_last_next ob order (list_copy Copy Caller s1) =
      first_to_last_next ob order (list_copy Copy Caller s2)"
    by (intro first_to_last_next_cong) (simp_all add: start_simps)
  then show "groups_of (first_to_last_generate fuel ob order s1) =
      groups_of (first_to_last_generate fuel ob order s2)"
    unfolding first_to_last_generate_def by (rule consume_groups_cong)
next
  assume "shuffler1 (s1 Caller) = shuffler2 (s2 Caller)"
  with assms have "each_choice_next ob order
        (let t = list_copy Copy Caller s1 in t(Copy := shuffler1 (t Copy))) =
      each_choice_next ob order
        (let t = list_copy Copy Caller s2 in t(Copy := shuffler2 (t Copy)))"
    by (intro each_choice_next_cong) (simp_all add: start_simps Let_def)
  then show "groups_of (random_generate fuel ob shuffler1 order s1) =
      groups_of (random_generate fuel ob shuffler2 order s2)"
    unfolding random_generate_def by (rule consume_groups_cong)
qed

text \<open>
  Claim C10. No strategy changes the list of its caller: the list holds the same
  mutations in the same order after every group yielded and when the sequence has been
  consumed to its end. (The shuffler of Random is given the copy.) For an order of at
  least 1 the sequences do come to an end, for Between-Operators when the mutations of
  the list are distinct.
\<close>

theorem caller_list_unchanged:
  "(each_choice_next ob order s = Inr (Some (g, s')) \<longrightarrow> s' Caller = s Caller) \<and>
   (first_to_last_next ob order s = Inr (Some (g, s')) \<longrightarrow> s' Caller = s Caller) \<and>
   (between_operators_next ob order (usage, s) = Inr (Some (g, usage', s')) \<longrightarrow>
      s' Caller = s Caller) \<and>
   (each_choice_generate fuel ob order s = Some (Inr (gs, s')) \<longrightarrow> s' Caller = s Caller) \<and>
   (first_to_last_generate fuel ob order s = Some (Inr (gs, s')) \<longrightarrow> s' Caller = s Caller) \<and>
   (random_generate fuel ob shuffler order s = Some (Inr (gs, s')) \<longrightarrow>
      s' Caller = s Caller) \<and>
   (between_operators_generate fuel ob order s = Some (Inr (gs, usage', s')) \<longrightarrow>
      s' Caller = s Caller) \<and>
   (1 \<le> order \<and> length (s Caller) < fuel \<longrightarrow>
      (\<exists>gs t. each_choice_generate fuel ob order s = Some (Inr (gs, t)) \<and>
         t Caller = s Caller) \<and>
      (\<exists>gs t. first_to_last_generate fuel ob order s = Some (Inr (gs, t)) \<and>
         t Caller = s Caller) \<and>
      (length (shuffler (s Caller)) = length (s Caller) \<longrightarrow>
         (\<exists>gs t. random_generate fuel ob shuffler order s = Some (Inr (gs, t)) \<and>
            t Caller = s Caller)) \<and>
      (distinct (s Caller) \<longrightarrow>
         (\<exists>gs u t. between_operators_generate fuel ob order s = Some (Inr (gs, u, t)) \<and>
            t Caller = s Caller)))"
proof -
  have ec: "t Caller = s Caller"
    if "each_choice_generate fuel ob order s = Some (Inr (gs, t))" for gs t
    using that each_choice_consume_partial [of fuel ob order "list_copy Copy Caller s" gs t]
    by (simp add: each_choice_generate_def start_simps)
  have fl: "t Caller = s Caller"
    if "first_to_last_generate fuel ob order s = Some (Inr (gs, t))" for gs t
    using that first_to_last_consume_partial [of fuel ob order "list_copy Copy Caller s" gs t]
    by (simp add: first_to_last_generate_def start_simps)
  have rd: "t Caller = s Caller"
    if "random_generate fuel ob shuffler order s = Some (Inr (gs, t))" for gs t
    using that each_choice_consume_partial [of fuel ob order
        "(list_copy Copy Caller s)(Copy := shuffler (s Caller))" gs t]
    by (simp add: random_generate_def start_simps Let_def)
  have bo: "t Caller = s Caller"
    if "between_operators_generate fuel ob order s = Some (Inr (gs, u, t))" for gs u t
    using that between_operators_consume_partial [of fuel ob order
        "fst (between_operators_start s)" "snd (between_operators_start s)" gs u t]
    by (simp add: between_operators_generate_def start_simps)
  have total: "(\<exists>gs t. each_choice_generate fuel ob order s = Some (Inr (gs, t))) \<and>
      (\<exists>gs t. first_to_last_generate fuel ob order s = Some (Inr (gs, t))) \<and>
      (length (shuffler (s Caller)) = length (s Caller) \<longrightarrow>
         (\<exists>gs t. random_generate fuel ob shuffler order s = Some (Inr (gs, t)))) \<and>
      (distinct (s Caller) \<longrightarrow>
         (\<exists>gs u t. between_operators_generate fuel ob order s = Some (Inr (gs, u, t))))"
    if o: "1 \<le> order" and f: "length (s Caller) < fuel"
  proof (intro conjI impI)
    from f have "length (list_copy Copy Caller s Copy) < fuel" by (simp add: start_simps)
    from each_choice_consume_total [where s = "list_copy Copy Caller s" and ob = ob, OF o this]
    show "\<exists>gs t. each_choice_generate fuel ob order s = Some (Inr (gs, t))"
      by (auto simp: each_choice_generate_def)
  next
    from f have "length (list_copy Copy Caller s Copy) < fuel" by (simp add: start_simps)
    from first_to_last_consume_total [where s = "list_copy Copy Caller s" and ob = ob,
        OF o this]
    show "\<exists>gs t. first_to_last_generate fuel ob order s = Some (Inr (gs, t))"
      by (auto simp: first_to_last_generate_def)
  next
    assume "length (shuffler (s Caller)) = length (s Caller)"
    with f have "length (((list_copy Copy Caller s)(Copy := shuffler (s Caller))) Copy) < fuel"
      by simp
    from each_choice_consume_total
      [where s = "(list_copy Copy Caller s)(Copy := shuffler (s Caller))" and ob = ob, OF o this]
    show "\<exists>gs t. random_generate fuel ob shuffler order s = Some (Inr (gs, t))"
      by (auto simp: random_generate_def start_simps Let_def)
  next
    assume d: "distinct (s Caller)"
    from f have "length (snd (between_operators_start s) Copy) < fuel"
      by (simp add: start_simps)
    from between_operators_consume_total
      [OF o between_operators_start_invariant [of s, OF d] this, of ob]
    show "\<exists>gs u t. between_operators_generate fuel ob order s = Some (Inr (gs, u, t))"
      by (auto simp: between_operators_generate_def)
  qed
  show ?thesis
  proof (intro conjI impI)
    assume "each_choice_next ob order s = Inr (Some (g, s'))"
    then show "s' Caller = s Caller" by (simp add: each_choice_next_partial)
  next
    assume "first_to_last_next ob order s = Inr (Some (g, s'))"
    then show "s' Caller = s Caller" by (simp add: first_to_last_next_partial)
  next
    assume "between_operators_next ob order (usage, s) = Inr (Some (g, usage', s'))"
    then show "s' Caller = s Caller" by (simp add: between_operators_next_partial)
  next
    assume "each_choice_generate fuel ob order s = Some (Inr (gs, s'))"
    then show "s' Caller = s Caller" by (rule ec)
  next
    assume "first_to_last_generate fuel ob order s = Some (Inr (gs, s'))"
    then show "s' Caller = s Caller" by (rule fl)
  next
    assume "random_generate fuel ob shuffler order s = Some (Inr (gs, s'))"
    then show "s' Caller = s Caller" by (rule rd)
  next
    assume "between_operators_generate fuel ob order s = Some (Inr (gs, usage', s'))"
    then show "s' Caller = s Caller" by (rule bo)
  next
    assume "1 \<le> order \<and> length (s Caller) < fuel"
    with total obtain gs t where "each_choice_generate fuel ob order s = Some (Inr (gs, t))"
      by blast
    with ec show "\<exists>gs t. each_choice_generate fuel ob order s = Some (Inr (gs, t)) \<and>
        t Caller = s Caller" by blast
  next
    assume "1 \<le> order \<and> length (s Caller) < fuel"
    with total obtain gs t where "first_to_last_generate fuel ob order s = Some (Inr (gs, t))"
      by blast
    with fl show "\<exists>gs t. first_to_last_generate fuel ob order s = Some (Inr (gs, t)) \<and>
        t Caller = s Caller" by blast
  next
    assume "1 \<le> order \<and> length (s Caller) < fuel"
      and "length (shuffler (s Caller)) = length (s Caller)"
    with total obtain gs t where
      "random_generate fuel ob shuffler order s = Some (Inr (gs, t))"
      by blast
    with rd show "\<exists>gs t. random_generate fuel ob shuffler order s = Some (Inr (gs, t)) \<and>
        t Caller = s Caller" by blast
  next
    assume "1 \<le> order \<and> length (s Caller) < fuel" and "distinct (s Caller)"
    with total obtain gs u t where
      "between_operators_generate fuel ob order s = Some (Inr (gs, u, t))"
      by blast
    with bo show "\<exists>gs u t. between_operators_generate fuel ob order s =
        Some (Inr (gs, u, t)) \<and> t Caller = s Caller" by blast
  qed
qed

lemma tree_lists_descendants: "lists_descendants tree_mutations"
  by (auto simp: lists_descendants_def tree_mutations_def split: if_splits)

lemma tree_runs:
  "groups_of (each_choice_generate 10 tree_mutations 2 (input_store [1, 2, 11, 12, 21, 31])) =
     Some (Inr [[1], [2], [11, 21], [12], [31]])"
  "groups_of (first_to_last_generate 10 tree_mutations 3 (input_store [1, 2, 11, 12, 21, 31])) =
     Some (Inr [[1], [2], [11, 21], [12], [31]])"
  "groups_of (between_operators_generate 10 tree_mutations 3
       (input_store [1, 2, 11, 12, 21, 31])) =
     Some (Inr [[1], [2], [11], [12, 21], [31]])"
  by code_simp+

lemma flat_runs:
  "groups_of (each_choice_generate 10 flat_mutations 2 (input_store [1, 2, 3, 4, 5])) =
     Some (Inr [[1, 2], [3, 4], [5]])"
  "groups_of (first_to_last_generate 10 flat_mutations 2 (input_store [1, 2, 3, 4, 5])) =
     Some (Inr [[1, 5], [2, 4], [3]])"
  "groups_of (random_generate 10 flat_mutations rev 2 (input_store [1, 2, 3, 4, 5])) =
     Some (Inr [[5, 4], [3, 2], [1]])"
  "groups_of (between_operators_generate 10 flat_mutations 2 (input_store [1, 2, 3, 4, 5])) =
     Some (Inr [[1, 2], [3, 4], [5, 2]])"
  by code_simp+

lemma groups_of_result: "groups_of r = Some (Inr gs) \<Longrightarrow> \<exists>s'. r = Some (Inr (gs, s'))"
  by (cases r) (auto simp: groups_of_def map_sum_def split: sum.splits)

theorem groups_conflict_free_witness:
  "lists_descendants tree_mutations \<and>
   groups_of (each_choice_generate 10 tree_mutations 2 (input_store [1, 2, 11, 12, 21, 31])) =
     Some (Inr [[1], [2], [11, 21], [12], [31]]) \<and>
   conflict_free tree_mutations [11, 21] \<and>
   groups_of (between_operators_generate 10 tree_mutations 3
       (input_store [1, 2, 11, 12, 21, 31])) =
     Some (Inr [[1], [2], [11], [12, 21], [31]]) \<and>
   conflict_free tree_mutations [12, 21]"
proof -
  from groups_of_result [OF tree_runs(1)] obtain s' where
    ec: "each_choice_generate 10 tree_mutations 2 (input_store [1, 2, 11, 12, 21, 31]) =
           Some (Inr ([[1], [2], [11, 21], [12], [31]], s'))" ..
  from groups_of_result [OF tree_runs(3)] obtain st where
    "between_operators_generate 10 tree_mutations 3 (input_store [1, 2, 11, 12, 21, 31]) =
       Some (Inr ([[1], [2], [11], [12, 21], [31]], st))" ..
  then obtain u t where
    bo: "between_operators_generate 10 tree_mutations 3 (input_store [1, 2, 11, 12, 21, 31]) =
           Some (Inr ([[1], [2], [11], [12, 21], [31]], u, t))"
    by (cases st) simp
  from groups_conflict_free [OF tree_lists_descendants,
      where fuel = 10 and order = 2 and s = "input_store [1, 2, 11, 12, 21, 31]"
        and gs = "[[1], [2], [11, 21], [12], [31]]" and s' = s'] ec
  have "conflict_free tree_mutations [11, 21]" by simp
  moreover
  from groups_conflict_free [OF tree_lists_descendants,
      where fuel = 10 and order = 3 and s = "input_store [1, 2, 11, 12, 21, 31]"
        and gs = "[[1], [2], [11], [12, 21], [31]]" and usage' = u and s' = t] bo
  have "conflict_free tree_mutations [12, 21]" by simp
  ultimately show ?thesis
    using tree_lists_descendants tree_runs by simp
qed

theorem groups_cover_input_witness:
  "(1 :: int) \<le> 2 \<and> length (input_store [1, 2, 3, 4, 5] Caller) < 10 \<and>
   mset (rev [1, 2, 3, 4, 5 :: nat]) = mset [1, 2, 3, 4, 5] \<and>
   distinct (input_store [1, 2, 3, 4, 5] Caller) \<and>
   groups_of (each_choice_generate 10 flat_mutations 2 (input_store [1, 2, 3, 4, 5])) =
     Some (Inr [[1, 2], [3, 4], [5]]) \<and>
   groups_of (first_to_last_generate 10 flat_mutations 2 (input_store [1, 2, 3, 4, 5])) =
     Some (Inr [[1, 5], [2, 4], [3]]) \<and>
   groups_of (random_generate 10 flat_mutations rev 2 (input_store [1, 2, 3, 4, 5])) =
     Some (Inr [[5, 4], [3, 2], [1]]) \<and>
   groups_of (between_operators_generate 10 flat_mutations 2 (input_store [1, 2, 3, 4, 5])) =
     Some (Inr [[1, 2], [3, 4], [5, 2]]) \<and>
   (\<exists>gs usage s'. between_operators_generate 10 flat_mutations 2 (input_store [1, 2, 3, 4, 5]) =
       Some (Inr (gs, usage, s')) \<and>
      set (concat gs) = {1, 2, 3, 4, 5} \<and> (\<exists>k. usage 2 = Some k \<and> 1 \<le> k))"
proof -
  have o: "(1 :: int) \<le> 2" by simp
  have f: "length (input_store [1, 2, 3, 4, 5] Caller) < 10"
    by (simp add: input_store_def)
  have d: "distinct (input_store [1, 2, 3, 4, 5] Caller)"
    by (simp add: input_store_def)
  from groups_cover_input [where order = 2 and fuel = 10 and ob = flat_mutations
      and s = "input_store [1, 2, 3, 4, 5]" and shuffler = rev] o f d
  have "\<exists>gs usage s'. between_operators_generate 10 flat_mutations 2
        (input_store [1, 2, 3, 4, 5]) = Some (Inr (gs, usage, s')) \<and>
      set (concat gs) = set (input_store [1, 2, 3, 4, 5] Caller) \<and>
      (\<forall>m\<in>set (input_store [1, 2, 3, 4, 5] Caller). \<exists>k. usage m = Some k \<and> 1 \<le> k)"
    by blast
  then have "\<exists>gs usage s'. between_operators_generate 10 flat_mutations 2
        (input_store [1, 2, 3, 4, 5]) = Some (Inr (gs, usage, s')) \<and>
      set (concat gs) = {1, 2, 3, 4, 5} \<and> (\<exists>k. usage 2 = Some k \<and> 1 \<le> k)"
    by (simp add: input_store_def) blast
  with o f d flat_runs show ?thesis by simp
qed

theorem strategies_deterministic_witness:
  "input_store [1, 2, 3, 4, 5] Caller = other_store [1, 2, 3, 4, 5] Caller \<and>
   rev (input_store [1, 2, 3, 4, 5] Caller) =
     (\<lambda>xs. [5, 4, 3, 2, 1]) (other_store [1, 2, 3, 4, 5] Caller) \<and>
   groups_of (each_choice_generate 10 flat_mutations 2 (other_store [1, 2, 3, 4, 5])) =
     Some (Inr [[1, 2], [3, 4], [5]]) \<and>
   groups_of (first_to_last_generate 10 flat_mutations 2 (other_store [1, 2, 3, 4, 5])) =
     Some (Inr [[1, 5], [2, 4], [3]]) \<and>
   groups_of (random_generate 10 flat_mutations (\<lambda>xs. [5, 4, 3, 2, 1]) 2
       (other_store [1, 2, 3, 4, 5])) =
     Some (Inr [[5, 4], [3, 2], [1]])"
proof -
  have c: "input_store [1, 2, 3, 4, 5] Caller = other_store [1, 2, 3, 4, 5] Caller"
    by (simp add: input_store_def other_store_def)
  have r: "rev (input_store [1, 2, 3, 4, 5] Caller) =
      (\<lambda>xs. [5, 4, 3, 2, 1]) (other_store [1, 2, 3, 4, 5] Caller)"
    by (simp add: input_store_def)
  from strategies_deterministic [where ?s1.0 = "input_store [1, 2, 3, 4, 5]"
      and ?s2.0 = "other_store [1, 2, 3, 4, 5]" and fuel = 10 and ob = flat_mutations
      and order = 2 and ?shuffler1.0 = rev and ?shuffler2.0 = "\<lambda>xs. [5, 4, 3, 2, 1]"] c r
  have "groups_of (each_choice_generate 10 flat_mutations 2 (input_store [1, 2, 3, 4, 5])) =
      groups_of (each_choice_generate 10 flat_mutations 2 (other_store [1, 2, 3, 4, 5]))"
    and "groups_of (first_to_last_generate 10 flat_mutations 2 (input_store [1, 2, 3, 4, 5])) =
      groups_of (first_to_last_generate 10 flat_mutations 2 (other_store [1, 2, 3, 4, 5]))"
    and "groups_of (random_generate 10 flat_mutations rev 2 (input_store [1, 2, 3, 4, 5])) =
      groups_of (random_generate 10 flat_mutations (\<lambda>xs. [5, 4, 3, 2, 1]) 2
        (other_store [1, 2, 3, 4, 5]))"
    by blast+
  with flat_runs c r show ?thesis by simp
qed

theorem caller_list_unchanged_witness:
  "(1 :: int) \<le> 2 \<and> length (input_store [1, 2, 3, 4, 5] Caller) < 10 \<and>
   length (rev (input_store [1, 2, 3, 4, 5] Caller)) =
     length (input_store [1, 2, 3, 4, 5] Caller) \<and>
   distinct (input_store [1, 2, 3, 4, 5] Caller) \<and>
   (\<exists>gs t. each_choice_generate 10 flat_mutations 2 (input_store [1, 2, 3, 4, 5]) =
      Some (Inr (gs, t)) \<and> t Caller = [1, 2, 3, 4, 5]) \<and>
   (\<exists>gs t. first_to_last_generate 10 flat_mutations 2 (input_store [1, 2, 3, 4, 5]) =
      Some (Inr (gs, t)) \<and> t Caller = [1, 2, 3, 4, 5]) \<and>
   (\<exists>gs t. random_generate 10 flat_mutations rev 2 (input_store [1, 2, 3, 4, 5]) =
      Some (Inr (gs, t)) \<and> t Caller = [1, 2, 3, 4, 5]) \<and>
   (\<exists>gs u t. between_operators_generate 10 flat_mutations 2 (input_store [1, 2, 3, 4, 5]) =
      Some (Inr (gs, u, t)) \<and> t Caller = [1, 2, 3, 4, 5])"
proof -
  have c: "input_store [1, 2, 3, 4, 5] Caller = [1, 2, 3, 4, 5]"
    by (simp add: input_store_def)
  have h: "(1 :: int) \<le> 2 \<and> length (input_store [1, 2, 3, 4, 5] Caller) < 10"
    "length (rev (input_store [1, 2, 3, 4, 5] Caller)) =
       length (input_store [1, 2, 3, 4, 5] Caller)"
    "distinct (input_store [1, 2, 3, 4, 5] Caller)"
    by (simp_all add: input_store_def)
  from caller_list_unchanged [where order = 2 and fuel = 10 and ob = flat_mutations
      and s = "input_store [1, 2, 3, 4, 5]" and shuffler = rev] h
  have "(\<exists>gs t. each_choice_generate 10 flat_mutations 2 (input_store [1, 2, 3, 4, 5]) =
      Some (Inr (gs, t)) \<and> t Caller = input_store [1, 2, 3, 4, 5] Caller) \<and>
   (\<exists>gs t. first_to_last_generate 10 flat_mutations 2 (input_store [1, 2, 3, 4, 5]) =
      Some (Inr (gs, t)) \<and> t Caller = input_store [1, 2, 3, 4, 5] Caller) \<and>
   (\<exists>gs t. random_generate 10 flat_mutations rev 2 (input_store [1, 2, 3, 4, 5]) =
      Some (Inr (gs, t)) \<and> t Caller = input_store [1, 2, 3, 4, 5] Caller) \<and>
   (\<exists>gs u t. between_operators_generate 10 flat_mutations 2 (input_store [1, 2, 3, 4, 5]) =
      Some (Inr (gs, u, t)) \<and> t Caller = input_store [1, 2, 3, 4, 5] Caller)"
    by blast
  with h show ?thesis unfolding c by blast
qed

end
